theory Spec2Isabelle
  imports Main "HOL-Library.Sublist" "HOL-Library.Multiset"
begin

section \<open>Go strings\<close>

text \<open>
  A Go string is a sequence of bytes: \<open>string\<close> (\<open>char list\<close>), one \<open>char\<close> per byte.
  \<open>len(s)\<close> is \<open>length s\<close> and \<open>strings.Contains(s, t)\<close> is \<open>sublist t s\<close>.
\<close>

definition byte :: "char \<Rightarrow> nat" where
  "byte c = of_char c"

text \<open>
  \<open>utf8.DecodeRuneInString\<close>: only the width of the first rune is needed. The table
  \<open>first\<close> of package \<open>unicode/utf8\<close> gives, for a leading byte, the size of the
  encoding and the range accepted for the second byte; ASCII bytes and invalid leading
  bytes have width 1, and so has every malformed or truncated sequence.
\<close>

definition utf8_first :: "nat \<Rightarrow> nat \<times> nat \<times> nat" where
  "utf8_first b =
     (if 0xC2 \<le> b \<and> b \<le> 0xDF then (2, 0x80, 0xBF)
      else if b = 0xE0 then (3, 0xA0, 0xBF)
      else if 0xE1 \<le> b \<and> b \<le> 0xEC then (3, 0x80, 0xBF)
      else if b = 0xED then (3, 0x80, 0x9F)
      else if 0xEE \<le> b \<and> b \<le> 0xEF then (3, 0x80, 0xBF)
      else if b = 0xF0 then (4, 0x90, 0xBF)
      else if 0xF1 \<le> b \<and> b \<le> 0xF3 then (4, 0x80, 0xBF)
      else if b = 0xF4 then (4, 0x80, 0x8F)
      else (1, 0, 0))"

definition byte_in :: "string \<Rightarrow> nat \<Rightarrow> nat \<Rightarrow> nat \<Rightarrow> bool" where
  "byte_in s k lo hi = (lo \<le> byte (s ! k) \<and> byte (s ! k) \<le> hi)"

definition rune_width :: "string \<Rightarrow> nat" where
  "rune_width s =
     (case s of
        [] \<Rightarrow> 0
      | c # cs \<Rightarrow>
          (case utf8_first (byte c) of
             (sz, lo, hi) \<Rightarrow>
               if sz = 1 then 1
               else if length s < sz then 1
               else if \<not> byte_in s 1 lo hi then 1
               else if sz \<le> 2 then 2
               else if \<not> byte_in s 2 0x80 0xBF then 1
               else if sz \<le> 3 then 3
               else if \<not> byte_in s 3 0x80 0xBF then 1
               else 4))"

text \<open>
  \<open>strings.ReplaceAll(s, old, new)\<close> is \<open>strings.Replace(s, old, new, -1)\<close>. For a
  non-empty \<open>old\<close> it scans from the left and replaces the non-overlapping occurrences
  (\<open>replaceEach\<close>). For an empty \<open>old\<close> it writes \<open>new\<close> in front of the string and
  after every rune (\<open>afterEachRune\<close>). It returns \<open>s\<close> itself when \<open>old == new\<close>.
\<close>

function replaceEach :: "string \<Rightarrow> string \<Rightarrow> string \<Rightarrow> string" where
  "replaceEach old new [] = []"
| "replaceEach old new (c # cs) =
     (if old \<noteq> [] \<and> prefix old (c # cs)
      then new @ replaceEach old new (drop (length old) (c # cs))
      else c # replaceEach old new cs)"
  by pat_completeness auto
termination
  by (relation "measure (\<lambda>(old, new, s). length s)") (auto simp: neq_Nil_conv)

function afterEachRune :: "string \<Rightarrow> string \<Rightarrow> string" where
  "afterEachRune new s =
     (if s = [] then []
      else take (rune_width s) s @ new @ afterEachRune new (drop (rune_width s) s))"
  by pat_completeness auto
termination
proof (relation "measure (\<lambda>(new, s). length s)")
  show "wf (measure (\<lambda>(new, s). length s))" by simp
next
  fix new s :: string
  assume ne: "s \<noteq> []"
  then obtain c cs where "s = c # cs" by (cases s) auto
  then have "0 < rune_width s" by (simp add: rune_width_def split: prod.splits)
  with ne show "((new, drop (rune_width s) s), new, s) \<in> measure (\<lambda>(new, s). length s)"
    by simp
qed

declare afterEachRune.simps [simp del]

definition ReplaceAll :: "string \<Rightarrow> string \<Rightarrow> string \<Rightarrow> string" where
  "ReplaceAll s old new =
     (if old = new then s
      else if old = [] then new @ afterEachRune new s
      else replaceEach old new s)"

text \<open>
  \<open>strings.TrimSpace\<close> removes leading and trailing white space as defined by Unicode:
  the ASCII characters tab, line feed, vertical tab, form feed, carriage return and
  space, and the code points U+0085, U+00A0, U+1680, U+2000 to U+200A, U+2028, U+2029,
  U+202F, U+205F and U+3000, listed here by their UTF-8 encodings.
\<close>

definition unicode_spaces :: "string list" where
  "unicode_spaces =
     map (\<lambda>c. [c]) [CHR 0x09, CHR 0x0A, CHR 0x0B, CHR 0x0C, CHR 0x0D, CHR 0x20] @
     [[CHR 0xC2, CHR 0x85], [CHR 0xC2, CHR 0xA0], [CHR 0xE1, CHR 0x9A, CHR 0x80]] @
     map (\<lambda>c. [CHR 0xE2, CHR 0x80, c])
       [CHR 0x80, CHR 0x81, CHR 0x82, CHR 0x83, CHR 0x84, CHR 0x85, CHR 0x86, CHR 0x87,
        CHR 0x88, CHR 0x89, CHR 0x8A, CHR 0xA8, CHR 0xA9, CHR 0xAF] @
     [[CHR 0xE2, CHR 0x81, CHR 0x9F], [CHR 0xE3, CHR 0x80, CHR 0x80]]"

function trimLeft :: "string \<Rightarrow> string" where
  "trimLeft s =
     (case find (\<lambda>w. prefix w s) unicode_spaces of
        None \<Rightarrow> s
      | Some w \<Rightarrow> if w = [] then s else trimLeft (drop (length w) s))"
  by pat_completeness auto
termination
proof (relation "measure length")
  show "wf (measure length)" by simp
next
  fix s :: string and w :: string
  assume f: "find (\<lambda>w. prefix w s) unicode_spaces = Some w" and ne: "w \<noteq> []"
  from f have "prefix w s" by (auto simp: find_Some_iff)
  with ne have "s \<noteq> []" by auto
  with ne show "(drop (length w) s, s) \<in> measure length" by simp
qed

function trimRight :: "string \<Rightarrow> string" where
  "trimRight s =
     (case find (\<lambda>w. suffix w s) unicode_spaces of
        None \<Rightarrow> s
      | Some w \<Rightarrow> if w = [] then s else trimRight (take (length s - length w) s))"
  by pat_completeness auto
termination
proof (relation "measure length")
  show "wf (measure length)" by simp
next
  fix s :: string and w :: string
  assume f: "find (\<lambda>w. suffix w s) unicode_spaces = Some w" and ne: "w \<noteq> []"
  from f have "suffix w s" by (auto simp: find_Some_iff)
  with ne have "s \<noteq> []" by auto
  with ne show "(take (length s - length w) s, s) \<in> measure length" by simp
qed

declare trimLeft.simps [simp del] trimRight.simps [simp del]

definition TrimSpace :: "string \<Rightarrow> string" where
  "TrimSpace s = trimRight (trimLeft s)"

text \<open>\<open>fmt.Sprintf("%04x", n)\<close> for \<open>n \<ge> 0\<close>: lower-case hexadecimal, zero-padded to width 4.\<close>

definition hexdigit :: "nat \<Rightarrow> char" where
  "hexdigit d = ''0123456789abcdef'' ! d"

fun hex :: "nat \<Rightarrow> string" where
  "hex n = (if n < 16 then [hexdigit n] else hex (n div 16) @ [hexdigit (n mod 16)])"

declare hex.simps [simp del]

definition fmt04x :: "nat \<Rightarrow> string" where
  "fmt04x n = replicate (4 - length (hex n)) (CHR ''0'') @ hex n"

section \<open>Go regular expressions\<close>

text \<open>
  Package \<open>regexp\<close> is not part of the repository. The patterns the policy compiles use
  character classes, concatenation, alternation, greedy \<open>?\<close>, \<open>*\<close>, \<open>+\<close> and counted
  repetition, the word boundary, and the text anchors; \<open>regex\<close> is the syntax of these
  (non-capturing groups are the tree structure). Counted repetitions are expanded the way
  the regexp parser's simplifier does: \<open>x{n}\<close> is \<open>n\<close> copies, \<open>x{0,n}\<close> is
  \<open>(x(x(...)?)?)?\<close>. Matching is on bytes: a class lists ranges of single bytes, and a
  rune of several bytes that a class admits is written as the sequence of its bytes
  (the flag \<open>(?i)\<close> is applied in this way, see \<open>fold_case\<close> below). A byte above 0x7F
  is in no class and is no word character, as in Go, where the classes used here hold
  ASCII runes only and \<open>\b\<close> is defined on ASCII.

  \<open>Loop x\<close> is not pattern syntax: it is the instruction that ends every round of a
  repetition in the compiled program (one more round of \<open>x\<close>, or leave).
\<close>

datatype regex =
    Eps
  | Cls "(char \<times> char) list"
  | Seq regex regex
  | Alt regex regex
  | Opt regex
  | Star regex
  | WordB
  | BeginText
  | EndText
  | Plus regex
  | Loop regex

text \<open>The order in which the matcher descends: \<open>x*\<close> is above \<open>x+\<close>, which is above its loop.\<close>

primrec weight :: "regex \<Rightarrow> nat" where
  "weight Eps = 0"
| "weight (Cls rs) = 0"
| "weight (Seq a b) = Suc (weight a + weight b)"
| "weight (Alt a b) = Suc (weight a + weight b)"
| "weight (Opt a) = Suc (weight a)"
| "weight (Star a) = weight a + 3"
| "weight WordB = 0"
| "weight BeginText = 0"
| "weight EndText = 0"
| "weight (Plus a) = weight a + 2"
| "weight (Loop a) = weight a + 1"

definition in_class :: "(char \<times> char) list \<Rightarrow> char \<Rightarrow> bool" where
  "in_class rs c = list_ex (\<lambda>(lo, hi). byte lo \<le> byte c \<and> byte c \<le> byte hi) rs"

definition word_class :: "(char \<times> char) list" where
  "word_class =
     [(CHR ''0'', CHR ''9''), (CHR ''A'', CHR ''Z''), (CHR ''_'', CHR ''_''), (CHR ''a'', CHR ''z'')]"

definition is_word_at :: "string \<Rightarrow> nat \<Rightarrow> bool" where
  "is_word_at s i = (i < length s \<and> in_class word_class (s ! i))"

definition word_boundary :: "string \<Rightarrow> nat \<Rightarrow> bool" where
  "word_boundary s i = ((0 < i \<and> is_word_at s (i - 1)) \<noteq> is_word_at s i)"

text \<open>
  \<open>ends r s i\<close> lists the positions at which a match of \<open>r\<close> that starts at position
  \<open>i\<close> of the text \<open>s\<close> can end, in the order in which a backtracking matcher tries them:
  the first alternative before the second, one more round of a greedy repetition before
  none. Go's leftmost-first semantics selects the head of this list; a position may
  occur in it more than once.

  Repetitions follow the compiler of \<open>regexp/syntax\<close>: \<open>x+\<close> is \<open>x\<close> followed by the loop
  instruction, and \<open>x*\<close> is \<open>(x+)?\<close> (for an \<open>x\<close> that cannot match the empty string the
  compiler emits the loop alone, which lists the same ends). The matcher does not enter
  an instruction twice at the same position. So a round that the loop starts and that
  consumes nothing is dropped (the loop is left at this position only after the longer
  rounds), and a first round of \<open>x+\<close> that consumes nothing leaves the repetition there.
  What the model does not record is which instructions inside \<open>x\<close> an earlier round has
  entered at the position where a later round starts; this can matter only when \<open>x\<close>
  can match the empty string along several paths.
\<close>

function ends :: "regex \<Rightarrow> string \<Rightarrow> nat \<Rightarrow> nat list" where
  "ends Eps s i = [i]"
| "ends (Cls rs) s i = (if i < length s \<and> in_class rs (s ! i) then [Suc i] else [])"
| "ends (Seq a b) s i = concat (map (ends b s) (ends a s i))"
| "ends (Alt a b) s i = ends a s i @ ends b s i"
| "ends (Opt a) s i = ends a s i @ [i]"
| "ends (Star a) s i = ends (Plus a) s i @ [i]"
| "ends WordB s i = (if word_boundary s i then [i] else [])"
| "ends BeginText s i = (if i = 0 then [i] else [])"
| "ends EndText s i = (if i = length s then [i] else [])"
| "ends (Plus a) s i =
     concat (map (\<lambda>j. if i < j \<and> j \<le> length s then ends (Loop a) s j
                      else if j = i then [i] else [])
               (ends a s i))"
| "ends (Loop a) s i =
     concat (map (\<lambda>j. if i < j \<and> j \<le> length s then ends (Loop a) s j else []) (ends a s i)) @ [i]"
  by pat_completeness auto
termination
  by (relation "measures [\<lambda>(r, s, i). weight r, \<lambda>(r, s, i). length s - i]") auto

text \<open>The leftmost match at or after \<open>pos\<close>: its start and its end.\<close>

function find_from :: "regex \<Rightarrow> string \<Rightarrow> nat \<Rightarrow> (nat \<times> nat) option" where
  "find_from re s pos =
     (if length s < pos then None
      else (case ends re s pos of
              e # _ \<Rightarrow> Some (pos, e)
            | [] \<Rightarrow> find_from re s (Suc pos)))"
  by pat_completeness auto
termination
  by (relation "measure (\<lambda>(re, s, pos). Suc (length s) - pos)") auto

declare find_from.simps [simp del]

declare ends.simps [simp del]

lemma ends_ge: "j \<in> set (ends r s i) \<Longrightarrow> i \<le> j"
proof (induction r s i arbitrary: j rule: ends.induct)
  case (1 s i)
  then show ?case by (simp add: ends.simps(1))
next
  case (2 rs s i)
  then show ?case by (simp add: ends.simps(2) split: if_splits)
next
  case (3 a b s i)
  from "3.prems" obtain k where "k \<in> set (ends a s i)" "j \<in> set (ends b s k)"
    by (auto simp: ends.simps(3))
  with "3.IH" show ?case by (meson le_trans)
next
  case (4 a b s i)
  then show ?case by (auto simp: ends.simps(4))
next
  case (5 a s i)
  then show ?case by (auto simp: ends.simps(5))
next
  case (6 a s i)
  then show ?case by (auto simp: ends.simps(6))
next
  case (7 s i)
  then show ?case by (simp add: ends.simps(7) split: if_splits)
next
  case (8 s i)
  then show ?case by (simp add: ends.simps(8) split: if_splits)
next
  case (9 s i)
  then show ?case by (simp add: ends.simps(9) split: if_splits)
next
  case (10 a s i)
  from "10.prems"
  have "j = i \<or> (\<exists>k\<in>set (ends a s i). i < k \<and> k \<le> length s \<and> j \<in> set (ends (Loop a) s k))"
    by (subst (asm) ends.simps(10)) (auto split: if_splits)
  with "10.IH" show ?case by (meson le_refl le_trans less_imp_le)
next
  case (11 a s i)
  from "11.prems"
  have "j = i \<or> (\<exists>k\<in>set (ends a s i). i < k \<and> k \<le> length s \<and> j \<in> set (ends (Loop a) s k))"
    by (subst (asm) ends.simps(11)) (auto split: if_splits)
  with "11.IH" show ?case by (meson le_refl le_trans less_imp_le)
qed

lemma find_from_bounds: "find_from re s pos = Some (m0, m1) \<Longrightarrow> pos \<le> m0 \<and> m0 \<le> m1"
proof (induction re s pos rule: find_from.induct)
  case (1 re s pos)
  show ?case
  proof (cases "ends re s pos")
    case Nil
    with 1 show ?thesis by (auto simp: find_from.simps [of re s pos] split: if_splits)
  next
    case (Cons e es)
    then have "e \<in> set (ends re s pos)" by simp
    then have "pos \<le> e" by (rule ends_ge)
    with 1 Cons show ?thesis by (auto simp: find_from.simps [of re s pos] split: if_splits)
  qed
qed

text \<open>
  \<open>(*Regexp).re_allMatches\<close> with no limit on the number of matches: successive
  non-overlapping matches; after an empty match the search moves on by one rune, and an
  empty match right after the previous match is not delivered. \<open>prevMatchEnd\<close> is
  \<open>None\<close> for Go's initial \<open>-1\<close>.
\<close>

function re_allMatches :: "regex \<Rightarrow> string \<Rightarrow> nat \<Rightarrow> nat option \<Rightarrow> (nat \<times> nat) list" where
  "re_allMatches re s pos prevMatchEnd =
     (if length s < pos then []
      else (case find_from re s pos of
              None \<Rightarrow> []
            | Some (m0, m1) \<Rightarrow>
                (let accept = \<not> (m1 = pos \<and> Some m0 = prevMatchEnd);
                     width = rune_width (drop pos s);
                     pos' = (if m1 = pos
                             then (if 0 < width then pos + width else Suc (length s))
                             else m1);
                     rest = re_allMatches re s pos' (Some m1)
                 in if accept then (m0, m1) # rest else rest)))"
  by pat_completeness auto
termination
proof (relation "measure (\<lambda>(re, s, pos, p). Suc (length s) - pos)")
  show "wf (measure (\<lambda>(re, s, pos, p). Suc (length s) - pos))" by simp
next
  fix re s pos and prevMatchEnd :: "nat option" and x2 :: "nat \<times> nat" and m0 m1 accept width pos'
  assume le: "\<not> length s < pos"
    and f: "find_from re s pos = Some x2"
    and x2: "(m0, m1) = x2"
    and w: "width = rune_width (drop pos s)"
    and p: "pos' = (if m1 = pos then if 0 < width then pos + width else Suc (length s) else m1)"
  from f x2 have "pos \<le> m0 \<and> m0 \<le> m1" by (auto dest: find_from_bounds)
  with le p have "pos < pos'" by (auto split: if_splits)
  with le show "((re, s, pos', Some m1), re, s, pos, prevMatchEnd)
      \<in> measure (\<lambda>(re, s, pos, p). Suc (length s) - pos)" by simp
qed

declare re_allMatches.simps [simp del]

definition FindAllString :: "regex \<Rightarrow> string \<Rightarrow> string list" where
  "FindAllString re s = map (\<lambda>(m0, m1). take (m1 - m0) (drop m0 s)) (re_allMatches re s 0 None)"

definition MatchString :: "regex \<Rightarrow> string \<Rightarrow> bool" where
  "MatchString re s = (find_from re s 0 \<noteq> None)"

text \<open>
  \<open>(*Regexp).replaceAll\<close> as \<open>ReplaceAllString\<close> calls it, for a replacement text
  without \<open>$\<close> (it is then copied literally): \<open>searchPos\<close> is where the next match is
  looked for, \<open>lastMatchEnd\<close> the end of the most recent match; the result of the
  function is what is still to be appended to the buffer.
\<close>

function replaceAll :: "regex \<Rightarrow> string \<Rightarrow> string \<Rightarrow> nat \<Rightarrow> nat \<Rightarrow> string" where
  "replaceAll re src repl searchPos lastMatchEnd =
     (if length src < searchPos then drop lastMatchEnd src
      else (case find_from re src searchPos of
              None \<Rightarrow> drop lastMatchEnd src
            | Some (a0, a1) \<Rightarrow>
                (let before = take (a0 - lastMatchEnd) (drop lastMatchEnd src);
                     ins = (if lastMatchEnd < a1 \<or> a0 = 0 then repl else []);
                     width = rune_width (drop searchPos src);
                     searchPos' = (if a1 < searchPos + width then searchPos + width
                                   else if a1 < searchPos + 1 then searchPos + 1
                                   else a1)
                 in before @ ins @ replaceAll re src repl searchPos' a1)))"
  by pat_completeness auto
termination
proof (relation "measure (\<lambda>(re, src, repl, searchPos, l). Suc (length src) - searchPos)")
  show "wf (measure (\<lambda>(re, src, repl, searchPos, l). Suc (length src) - searchPos))" by simp
next
  fix re src and repl :: string and searchPos lastMatchEnd :: nat and x2 :: "nat \<times> nat"
    and a0 a1 width searchPos' :: nat
  assume le: "\<not> length src < searchPos"
    and f: "find_from re src searchPos = Some x2"
    and x2: "(a0, a1) = x2"
    and p: "searchPos' = (if a1 < searchPos + width then searchPos + width
                          else if a1 < searchPos + 1 then searchPos + 1 else a1)"
  from f x2 have "searchPos \<le> a0 \<and> a0 \<le> a1" by (auto dest: find_from_bounds)
  with p have "searchPos < searchPos'" by (auto split: if_splits)
  with le show "((re, src, repl, searchPos', a1), re, src, repl, searchPos, lastMatchEnd)
      \<in> measure (\<lambda>(re, src, repl, searchPos, l). Suc (length src) - searchPos)" by simp
qed

declare replaceAll.simps [simp del]

definition ReplaceAllString :: "regex \<Rightarrow> string \<Rightarrow> string \<Rightarrow> string" where
  "ReplaceAllString re src repl = replaceAll re src repl 0 0"

subsection \<open>Pattern syntax\<close>

definition Chr :: "char \<Rightarrow> regex" where
  "Chr c = Cls [(c, c)]"

definition OneOrMore :: "regex \<Rightarrow> regex" where
  "OneOrMore r = Plus r"

fun Exactly :: "nat \<Rightarrow> regex \<Rightarrow> regex" where
  "Exactly 0 r = Eps"
| "Exactly (Suc n) r = Seq r (Exactly n r)"

fun UpTo :: "nat \<Rightarrow> regex \<Rightarrow> regex" where
  "UpTo 0 r = Eps"
| "UpTo (Suc n) r = Opt (Seq r (UpTo n r))"

fun Seqs :: "regex list \<Rightarrow> regex" where
  "Seqs [] = Eps"
| "Seqs [r] = r"
| "Seqs (r # rs) = Seq r (Seqs rs)"

section \<open>The PII masking policy\<close>

subsection \<open>Constants and compiled patterns\<close>

definition APIMInternalErrorCode :: nat where
  "APIMInternalErrorCode = 500"

definition APIMInternalExceptionCode :: nat where
  "APIMInternalExceptionCode = 900967"

definition MetadataKeyPIIEntities :: string where
  "MetadataKeyPIIEntities = ''piimaskingregex:pii_entities''"

definition DefaultEmailEntityName :: string where
  "DefaultEmailEntityName = ''EMAIL''"

definition DefaultPhoneEntityName :: string where
  "DefaultPhoneEntityName = ''PHONE''"

text \<open>\<open>TextCleanRegex\<close>: a double quote at the start of the text, or one at its end.\<close>

definition TextCleanRegex :: regex where
  "TextCleanRegex = Alt (Seq BeginText (Chr (CHR 0x22))) (Seq (Chr (CHR 0x22)) EndText)"

text \<open>
  The flag \<open>(?i)\<close>. The parser adds to a class the case variants of its members
  (\<open>unicode.SimpleFold\<close>): for a class that holds \<open>a-z\<close> these are \<open>A-Z\<close>, the long s
  (U+017F, a variant of \<open>s\<close>, the bytes C5 BF) and the Kelvin sign (U+212A, a variant of
  \<open>k\<close>, the bytes E2 84 AA). \<open>fold_case rs\<close> is such a class, \<open>rs\<close> listing its ASCII
  members in both cases.
\<close>

definition long_s :: regex where
  "long_s = Seq (Chr (CHR 0xC5)) (Chr (CHR 0xBF))"

definition kelvin_sign :: regex where
  "kelvin_sign = Seqs [Chr (CHR 0xE2), Chr (CHR 0x84), Chr (CHR 0xAA)]"

definition fold_case :: "(char \<times> char) list \<Rightarrow> regex" where
  "fold_case rs = Alt (Cls rs) (Alt long_s kelvin_sign)"

text \<open>
  \<open>DefaultEmailRegex\<close>, with \<open>(?i)\<close>: a word boundary, one or more local-part
  characters, \<open>@\<close>, one or more labels each followed by a dot, and a last label of at
  least two characters, then a word boundary.
\<close>

definition alnum_ci :: "(char \<times> char) list" where
  "alnum_ci = [(CHR ''a'', CHR ''z''), (CHR ''A'', CHR ''Z''), (CHR ''0'', CHR ''9'')]"

definition email_local_class :: "(char \<times> char) list" where
  "email_local_class =
     alnum_ci @ map (\<lambda>c. (c, c)) ''.!#$%&'' @ [(CHR 0x27, CHR 0x27)] @
     map (\<lambda>c. (c, c)) ''*+/=?^_{|}~-''"

definition alnum_dash_ci :: "(char \<times> char) list" where
  "alnum_dash_ci = alnum_ci @ [(CHR ''-'', CHR ''-'')]"

definition email_label_tail :: regex where
  "email_label_tail = Seq (UpTo 61 (fold_case alnum_dash_ci)) (fold_case alnum_ci)"

definition DefaultEmailRegex :: regex where
  "DefaultEmailRegex =
     Seqs [WordB, OneOrMore (fold_case email_local_class), Chr (CHR ''@''),
           OneOrMore (Seqs [fold_case alnum_ci, Opt email_label_tail, Chr (CHR ''.'')]),
           fold_case alnum_ci, email_label_tail, WordB]"

text \<open>
  \<open>DefaultPhoneRegex\<close>: an optional country code 1, an area code of three digits the
  first of which is 2 to 9 (in parentheses or not), an exchange code of three digits the
  first of which is 2 to 9, and four digits, with optional separators, then a word
  boundary. \<open>\s\<close> is the class of tab, line feed, form feed, carriage return and space.
\<close>

definition digit :: "(char \<times> char) list" where
  "digit = [(CHR ''0'', CHR ''9'')]"

definition digit_2_9 :: "(char \<times> char) list" where
  "digit_2_9 = [(CHR ''2'', CHR ''9'')]"

definition phone_sep :: "(char \<times> char) list" where
  "phone_sep =
     [(CHR ''-'', CHR ''-''), (CHR ''.'', CHR ''.''), (CHR 0x09, CHR 0x0A),
      (CHR 0x0C, CHR 0x0D), (CHR 0x20, CHR 0x20)]"

definition DefaultPhoneRegex :: regex where
  "DefaultPhoneRegex =
     Seqs [Opt (Seqs [Opt (Chr (CHR ''+'')), Chr (CHR ''1''), Opt (Cls phone_sep)]),
           Alt (Seqs [Chr (CHR ''(''), Cls digit_2_9, Exactly 2 (Cls digit), Chr (CHR '')'')])
               (Seq (Cls digit_2_9) (Exactly 2 (Cls digit))),
           Opt (Cls phone_sep),
           Cls digit_2_9, Exactly 2 (Cls digit),
           Opt (Cls phone_sep),
           Exactly 4 (Cls digit),
           WordB]"

text \<open>The placeholder pattern of \<open>maskPIIFromContent\<close>: \<open>^\[[A-Z_]+_[0-9a-f]{4}\]$\<close>.\<close>

definition upper_underscore :: "(char \<times> char) list" where
  "upper_underscore = [(CHR ''A'', CHR ''Z''), (CHR ''_'', CHR ''_'')]"

definition hex_lower :: "(char \<times> char) list" where
  "hex_lower = [(CHR ''0'', CHR ''9''), (CHR ''a'', CHR ''f'')]"

definition placeholderPattern :: regex where
  "placeholderPattern =
     Seqs [BeginText, Chr (CHR ''[''), OneOrMore (Cls upper_underscore), Chr (CHR ''_''),
           Exactly 4 (Cls hex_lower), Chr (CHR '']''), EndText]"

text \<open>
  The pattern \<open>^[A-Z_]+$\<close> that \<open>parseParams\<close> requires of the name of a custom entity; the
  names of the built-in entities satisfy it too.
\<close>

definition entityNamePattern :: regex where
  "entityNamePattern = Seqs [BeginText, OneOrMore (Cls upper_underscore), EndText]"

subsection \<open>Data model\<close>

text \<open>
  \<open>PIIEntities\<close> is a Go map from entity name to compiled pattern. The order in which a
  \<open>range\<close> loop visits a map is not specified and differs from run to run; the list
  \<open>PIIEntities\<close> holds the entries, with distinct names, in the order in which the loop
  of the request at hand visits them.
\<close>

record PIIMaskingRegexPolicyParams =
  PIIEntities :: "(string \<times> regex) list"
  JsonPath :: string
  RedactPII :: bool

text \<open>
  Exchange metadata are a \<open>map[string]interface{}\<close>. A value is either a
  \<open>map[string]string\<close>, kept as the list of its entries, or a value of another type.
\<close>

datatype meta_value = PIIMap "(string \<times> string) list" | OtherValue string

type_synonym metadata = "string \<rightharpoonup> meta_value"

datatype error = Error string

record RequestContext =
  Body :: "string option"
  Metadata :: metadata

record ResponseContext =
  ResponseBody :: "string option"
  ResponseMetadata :: metadata

text \<open>
  The actions a phase returns. \<open>UpstreamRequestModifications None\<close> and
  \<open>UpstreamResponseModifications None\<close> are the empty structs (no new body: the payload
  goes on unchanged). The body of an immediate response is the JSON object with the
  members \<open>code\<close> and \<open>message\<close>, kept here as the pair.
\<close>

datatype RequestAction =
    UpstreamRequestModifications "string option"
  | ImmediateResponse nat "(string \<times> string) list" "nat \<times> string"

datatype ResponseAction = UpstreamResponseModifications "string option"

text \<open>
  The collaborators outside the repository, \<open>utils.ExtractStringValueFromJsonpath\<close>,
  \<open>utils.SetValueAtJSONPath\<close>, \<open>json.Unmarshal\<close> into a \<open>map[string]interface{}\<close> and
  \<open>json.Marshal\<close>, are parameters. \<open>'j\<close> is the type of decoded JSON objects.
\<close>

record 'j sdk =
  ExtractStringValueFromJsonpath :: "string \<Rightarrow> string \<Rightarrow> error + string"
  Unmarshal :: "string \<Rightarrow> error + 'j"
  SetValueAtJSONPath :: "'j \<Rightarrow> string \<Rightarrow> string \<Rightarrow> error + 'j"
  Marshal :: "'j \<Rightarrow> error + string"

subsection \<open>Masking\<close>

text \<open>\<open>fmt.Sprintf("[%s_%04x]", key, counter)\<close>\<close>

definition placeholder :: "string \<Rightarrow> nat \<Rightarrow> string" where
  "placeholder key counter = ''['' @ key @ ''_'' @ fmt04x counter @ '']''"

text \<open>
  The first pass. Its state holds the two Go maps \<open>allMatches\<close> and
  \<open>maskedPIIEntities\<close>, as lists of entries in the order of insertion (a key is
  inserted only when it is absent), and \<open>counter\<close>, a Go \<open>int\<close> that a request cannot
  make overflow.
\<close>

record maskState =
  st_allMatches :: "(string \<times> string) list"
  st_maskedPIIEntities :: "(string \<times> string) list"
  st_counter :: nat

fun scanMatches :: "string \<Rightarrow> string list \<Rightarrow> maskState \<Rightarrow> maskState" where
  "scanMatches key [] st = st"
| "scanMatches key (match # matches) st =
     scanMatches key matches
       (if map_of (st_allMatches st) match = None \<and> \<not> MatchString placeholderPattern match
        then st\<lparr>st_allMatches := st_allMatches st @ [(match, placeholder key (st_counter st))],
                st_maskedPIIEntities := st_maskedPIIEntities st @ [(match, placeholder key (st_counter st))],
                st_counter := st_counter st + 1\<rparr>
        else st)"

fun scanEntities :: "string \<Rightarrow> (string \<times> regex) list \<Rightarrow> maskState \<Rightarrow> maskState" where
  "scanEntities content [] st = st"
| "scanEntities content ((key, pattern) # rest) st =
     scanEntities content rest (scanMatches key (FindAllString pattern content) st)"

definition firstPass :: "string \<Rightarrow> (string \<times> regex) list \<Rightarrow> maskState" where
  "firstPass content piiEntities =
     scanEntities content piiEntities
       \<lparr>st_allMatches = [], st_maskedPIIEntities = [], st_counter = 0\<rparr>"

text \<open>
  The second pass. \<open>order\<close> is the order in which \<open>range allMatches\<close> visits the keys
  (a permutation of them); \<open>sort.Slice\<close> then puts longer literals first.
  \<open>lookup m k\<close> is the Go map index \<open>m[k]\<close>, the empty string for an absent key.
\<close>

definition sortByLengthDesc :: "string list \<Rightarrow> string list" where
  "sortByLengthDesc originals = sort_key (\<lambda>s. - int (length s)) originals"

definition lookup :: "(string \<times> string) list \<Rightarrow> string \<Rightarrow> string" where
  "lookup m k = (case map_of m k of Some v \<Rightarrow> v | None \<Rightarrow> [])"

definition substitute :: "(string \<times> string) list \<Rightarrow> string list \<Rightarrow> string \<Rightarrow> string" where
  "substitute m originals content =
     foldl (\<lambda>maskedContent original. ReplaceAll maskedContent original (lookup m original))
       content originals"

definition maskPIIFromContent ::
  "(string list \<Rightarrow> string list) \<Rightarrow> string \<Rightarrow> (string \<times> regex) list \<Rightarrow> metadata
     \<Rightarrow> (error + string) \<times> metadata" where
  "maskPIIFromContent order content piiEntities metadata =
     (if content = [] then (Inr [], metadata)
      else
        (let st = firstPass content piiEntities;
             originals = sortByLengthDesc (order (map fst (st_allMatches st)));
             maskedContent = substitute (st_allMatches st) originals content;
             metadata' = (if st_maskedPIIEntities st \<noteq> []
                          then metadata(MetadataKeyPIIEntities \<mapsto> PIIMap (st_maskedPIIEntities st))
                          else metadata)
         in if st_allMatches st \<noteq> [] then (Inr maskedContent, metadata') else (Inr [], metadata')))"

subsection \<open>Redaction\<close>

fun redactLoop :: "(string \<times> regex) list \<Rightarrow> string \<times> bool \<Rightarrow> string \<times> bool" where
  "redactLoop [] (maskedContent, foundAndMasked) = (maskedContent, foundAndMasked)"
| "redactLoop ((key, pattern) # rest) (maskedContent, foundAndMasked) =
     (if MatchString pattern maskedContent
      then redactLoop rest (ReplaceAllString pattern maskedContent ''*****'', True)
      else redactLoop rest (maskedContent, foundAndMasked))"

definition redactPIIFromContent :: "string \<Rightarrow> (string \<times> regex) list \<Rightarrow> string" where
  "redactPIIFromContent content piiEntities =
     (if content = [] then []
      else (case redactLoop piiEntities (content, False) of
              (maskedContent, foundAndMasked) \<Rightarrow> if foundAndMasked then maskedContent else []))"

subsection \<open>Restoration\<close>

text \<open>
  \<open>maskedPIIEntities\<close> is given as the list of the entries of the map in the order in
  which the \<open>range\<close> loop visits them.
\<close>

definition restorePIIInResponse :: "string \<Rightarrow> (string \<times> string) list \<Rightarrow> string" where
  "restorePIIInResponse originalContent maskedPIIEntities =
     (if maskedPIIEntities = [] then originalContent
      else foldl (\<lambda>transformedContent (original, placeholder).
                    if sublist placeholder transformedContent
                    then ReplaceAll transformedContent placeholder original
                    else transformedContent)
             originalContent maskedPIIEntities)"

subsection \<open>Writing the payload back\<close>

definition updatePayloadWithMaskedContent ::
  "'j sdk \<Rightarrow> string \<Rightarrow> string \<Rightarrow> string \<Rightarrow> string \<Rightarrow> string" where
  "updatePayloadWithMaskedContent lib originalPayload extractedValue modifiedContent jsonPath =
     (if jsonPath = [] then modifiedContent
      else (case Unmarshal lib originalPayload of
              Inl err \<Rightarrow> modifiedContent
            | Inr jsonData \<Rightarrow>
                (case SetValueAtJSONPath lib jsonData jsonPath modifiedContent of
                   Inl err \<Rightarrow> originalPayload
                 | Inr jsonData' \<Rightarrow>
                     (case Marshal lib jsonData' of
                        Inl err \<Rightarrow> originalPayload
                      | Inr updatedPayload \<Rightarrow> updatedPayload))))"

definition buildErrorResponse :: "string \<Rightarrow> RequestAction" where
  "buildErrorResponse reason =
     ImmediateResponse APIMInternalErrorCode [(''Content-Type'', ''application/json'')]
       (APIMInternalExceptionCode, ''Error occurred during pii-masking-regex mediation: '' @ reason)"

subsection \<open>The two phases\<close>

definition errorText :: "error \<Rightarrow> string" where
  "errorText e = (case e of Error msg \<Rightarrow> msg)"

definition cleanAndTrim :: "string \<Rightarrow> string" where
  "cleanAndTrim extractedValue = TrimSpace (ReplaceAllString TextCleanRegex extractedValue [])"

definition OnRequest ::
  "'j sdk \<Rightarrow> (string list \<Rightarrow> string list) \<Rightarrow> PIIMaskingRegexPolicyParams \<Rightarrow> RequestContext
     \<Rightarrow> RequestAction \<times> metadata" where
  "OnRequest lib order params ctx =
     (if PIIEntities params = [] then (UpstreamRequestModifications None, Metadata ctx)
      else
        (case Body ctx of
           None \<Rightarrow> (UpstreamRequestModifications None, Metadata ctx)
         | Some payload \<Rightarrow>
             (case ExtractStringValueFromJsonpath lib payload (JsonPath params) of
                Inl err \<Rightarrow>
                  (buildErrorResponse (''error extracting value from JSONPath: '' @ errorText err),
                   Metadata ctx)
              | Inr extracted \<Rightarrow>
                  (let extractedValue = cleanAndTrim extracted;
                       masked =
                         (if RedactPII params
                          then (Inr (redactPIIFromContent extractedValue (PIIEntities params)),
                                Metadata ctx)
                          else maskPIIFromContent order extractedValue (PIIEntities params)
                                 (Metadata ctx))
                   in (case masked of
                         (Inl err, metadata') \<Rightarrow>
                           (buildErrorResponse (''error masking PII: '' @ errorText err), metadata')
                       | (Inr modifiedContent, metadata') \<Rightarrow>
                           if modifiedContent \<noteq> [] \<and> modifiedContent \<noteq> extractedValue
                           then (UpstreamRequestModifications
                                   (Some (updatePayloadWithMaskedContent lib payload extractedValue
                                            modifiedContent (JsonPath params))),
                                 metadata')
                           else (UpstreamRequestModifications None, metadata'))))))"

text \<open>
  \<open>order\<close> is the order in which the \<open>range\<close> loop of \<open>restorePIIInResponse\<close> visits the
  entries of the stored map.
\<close>

definition OnResponse ::
  "((string \<times> string) list \<Rightarrow> (string \<times> string) list) \<Rightarrow> PIIMaskingRegexPolicyParams
     \<Rightarrow> ResponseContext \<Rightarrow> ResponseAction" where
  "OnResponse order params ctx =
     (if RedactPII params then UpstreamResponseModifications None
      else
        (case ResponseMetadata ctx MetadataKeyPIIEntities of
           None \<Rightarrow> UpstreamResponseModifications None
         | Some (OtherValue v) \<Rightarrow> UpstreamResponseModifications None
         | Some (PIIMap maskedPIIMap) \<Rightarrow>
             (case ResponseBody ctx of
                None \<Rightarrow> UpstreamResponseModifications None
              | Some payload \<Rightarrow>
                  (let restoredContent = restorePIIInResponse payload (order maskedPIIMap)
                   in if restoredContent \<noteq> payload
                      then UpstreamResponseModifications (Some restoredContent)
                      else UpstreamResponseModifications None))))"

section \<open>Properties of the matcher\<close>

text \<open>
  For a body that cannot match the empty string, \<open>x*\<close> lists the ends of the loop alone,
  which is how the compiler emits it.
\<close>

lemma ends_Star_consuming:
  assumes "\<And>i. i \<notin> set (ends a s i)"
  shows "ends (Star a) s i = ends (Loop a) s i"
proof -
  have "(if i < j \<and> j \<le> length s then ends (Loop a) s j else if j = i then [i] else [])
          = (if i < j \<and> j \<le> length s then ends (Loop a) s j else [])"
    if "j \<in> set (ends a s i)" for j
    using that assms [of i] by auto
  then have "ends (Plus a) s i @ [i] = ends (Loop a) s i"
    by (simp add: ends.simps(10) ends.simps(11) cong: map_cong)
  then show ?thesis by (simp add: ends.simps(6))
qed

lemma find_from_hit:
  "pos \<le> length s \<Longrightarrow> ends re s pos = e # es \<Longrightarrow> find_from re s pos = Some (pos, e)"
  by (simp add: find_from.simps [of re s pos])

lemma find_from_skip:
  "ends re s pos = [] \<Longrightarrow> find_from re s pos = (if length s < pos then None else find_from re s (Suc pos))"
  by (simp add: find_from.simps [of re s pos])

lemma find_from_none:
  "(\<And>i. pos \<le> i \<Longrightarrow> i \<le> length s \<Longrightarrow> ends re s i = []) \<Longrightarrow> find_from re s pos = None"
proof (induction re s pos rule: find_from.induct)
  case (1 re s pos)
  show ?case
  proof (cases "length s < pos")
    case True
    then show ?thesis by (simp add: find_from.simps [of re s pos])
  next
    case False
    with "1.prems" have e: "ends re s pos = []" by simp
    from "1.prems" have "\<And>i. Suc pos \<le> i \<Longrightarrow> i \<le> length s \<Longrightarrow> ends re s i = []" by simp
    with "1.IH" False e have "find_from re s (Suc pos) = None" by simp
    with e show ?thesis by (simp add: find_from_skip)
  qed
qed

lemma find_from_first:
  "pos \<le> k \<Longrightarrow> k \<le> length s \<Longrightarrow> (\<And>i. pos \<le> i \<Longrightarrow> i < k \<Longrightarrow> ends re s i = []) \<Longrightarrow>
   ends re s k = e # es \<Longrightarrow> find_from re s pos = Some (k, e)"
proof (induction re s pos rule: find_from.induct)
  case (1 re s pos)
  show ?case
  proof (cases "pos = k")
    case True
    with "1.prems" show ?thesis by (simp add: find_from_hit)
  next
    case False
    with "1.prems" have lt: "pos < k" by simp
    with "1.prems" have e: "ends re s pos = []" by simp
    from lt "1.prems" have nl: "\<not> length s < pos" by simp
    from "1.prems" have "\<And>i. Suc pos \<le> i \<Longrightarrow> i < k \<Longrightarrow> ends re s i = []" by simp
    with "1.IH" [OF nl e] lt "1.prems" have "find_from re s (Suc pos) = Some (k, e)" by simp
    with e nl show ?thesis by (simp add: find_from_skip)
  qed
qed

lemma byte_inj: "byte a = byte b \<longleftrightarrow> a = b"
  by (simp add: byte_def)

lemma in_class_single: "in_class [(q, q)] c \<longleftrightarrow> c = q"
  by (auto simp: in_class_def byte_inj)

section \<open>Properties of the placeholder format\<close>

subsection \<open>Hexadecimal rendering\<close>

definition digitval :: "char \<Rightarrow> nat" where
  "digitval c = length (takeWhile (\<lambda>x. x \<noteq> c) ''0123456789abcdef'')"

definition unhex :: "string \<Rightarrow> nat" where
  "unhex s = foldl (\<lambda>a c. 16 * a + digitval c) 0 s"

lemma digitval_hexdigit: "d < 16 \<Longrightarrow> digitval (hexdigit d) = d"
proof -
  assume "d < 16"
  then have "d \<in> {0, 1, 2, 3, 4, 5, 6, 7, 8, 9, 10, 11, 12, 13, 14, 15}" by simp arith
  then show ?thesis
    by (elim insertE emptyE) (simp_all add: digitval_def hexdigit_def)
qed

lemma unhex_snoc: "unhex (s @ [c]) = 16 * unhex s + digitval c"
  by (simp add: unhex_def)

lemma unhex_hex: "unhex (hex n) = n"
proof (induction n rule: hex.induct)
  case (1 n)
  show ?case
  proof (cases "n < 16")
    case True
    then show ?thesis by (simp add: hex.simps [of n] unhex_def digitval_hexdigit)
  next
    case False
    with 1 have "unhex (hex (n div 16)) = n div 16" by simp
    with False show ?thesis
      by (simp add: hex.simps [of n] unhex_snoc digitval_hexdigit)
  qed
qed

lemma unhex_zeros: "unhex (replicate k (CHR ''0'') @ s) = unhex s"
proof -
  have "foldl (\<lambda>a c. 16 * a + digitval c) 0 (replicate k (CHR ''0'')) = 0"
    by (induction k) (simp_all add: digitval_def)
  then show ?thesis by (simp add: unhex_def)
qed

lemma unhex_fmt04x: "unhex (fmt04x n) = n"
  by (simp add: fmt04x_def unhex_zeros unhex_hex)

lemma fmt04x_inj: "fmt04x m = fmt04x n \<Longrightarrow> m = n"
  by (metis unhex_fmt04x)

lemma hexdigit_in: "d < 16 \<Longrightarrow> hexdigit d \<in> set ''0123456789abcdef''"
  unfolding hexdigit_def by (rule nth_mem) simp

lemma hex_chars: "set (hex n) \<subseteq> set ''0123456789abcdef''"
proof (induction n rule: hex.induct)
  case (1 n)
  show ?case
  proof (cases "n < 16")
    case True
    then show ?thesis using hexdigit_in [of n] by (simp add: hex.simps [of n])
  next
    case False
    with 1 have "set (hex (n div 16)) \<subseteq> set ''0123456789abcdef''" by simp
    moreover have "hexdigit (n mod 16) \<in> set ''0123456789abcdef''" by (rule hexdigit_in) simp
    ultimately show ?thesis using False by (simp add: hex.simps [of n])
  qed
qed

lemma fmt04x_chars: "set (fmt04x n) \<subseteq> set ''0123456789abcdef''"
  using hex_chars [of n] by (auto simp: fmt04x_def)

lemma hex_length: "n < 16 ^ k \<Longrightarrow> 0 < k \<Longrightarrow> length (hex n) \<le> k"
proof (induction n arbitrary: k rule: hex.induct)
  case (1 n)
  show ?case
  proof (cases "n < 16")
    case True
    with 1 show ?thesis by (simp add: hex.simps [of n])
  next
    case False
    from False "1.prems" have k: "1 < k" by (cases "k = 1") auto
    then obtain k' where k': "k = Suc k'" "0 < k'" by (cases k) auto
    with "1.prems" have "n div 16 < 16 ^ k'" by (simp add: less_mult_imp_div_less mult.commute)
    with 1 False k' have "length (hex (n div 16)) \<le> k'" by simp
    with False k' show ?thesis by (simp add: hex.simps [of n])
  qed
qed

lemma fmt04x_length: "n < 65536 \<Longrightarrow> length (fmt04x n) = 4"
proof -
  assume "n < 65536"
  then have "n < 16 ^ 4" by simp
  then have "length (hex n) \<le> 4" by (rule hex_length) simp
  then show ?thesis by (simp add: fmt04x_def)
qed

lemma last_separator:
  assumes "xs @ a # ys = xs' @ a # ys'" "a \<notin> set ys" "a \<notin> set ys'"
  shows "ys = ys'"
proof -
  have tw0: "a \<notin> set vs \<Longrightarrow> takeWhile (\<lambda>x. x \<noteq> a) (vs @ a # us) = vs" for vs us
    by (induction vs) auto
  have tw: "takeWhile (\<lambda>x. x \<noteq> a) (rev zs @ a # us) = rev zs" if "a \<notin> set zs" for zs us
    using that by (intro tw0) simp
  from assms(1) have "rev (xs @ a # ys) = rev (xs' @ a # ys')" by simp
  then have "rev ys @ a # rev xs = rev ys' @ a # rev xs'" by simp
  then have "takeWhile (\<lambda>x. x \<noteq> a) (rev ys @ a # rev xs)
           = takeWhile (\<lambda>x. x \<noteq> a) (rev ys' @ a # rev xs')" by simp
  with assms(2,3) have "rev ys = rev ys'" by (simp add: tw)
  then show ?thesis by simp
qed

lemma fmt04x_no_underscore: "CHR ''_'' \<notin> set (fmt04x n)"
  using fmt04x_chars [of n] by auto

lemma placeholder_inj:
  assumes "placeholder k1 n1 = placeholder k2 n2"
  shows "n1 = n2"
proof -
  from assms have "k1 @ CHR ''_'' # fmt04x n1 = k2 @ CHR ''_'' # fmt04x n2"
    by (simp add: placeholder_def)
  then have "fmt04x n1 = fmt04x n2"
    by (rule last_separator) (rule fmt04x_no_underscore)+
  then show ?thesis by (rule fmt04x_inj)
qed

subsection \<open>Invariants of the first pass\<close>

text \<open>
  \<open>pass_inv prov st\<close>: the two maps are equal, the counter is the number of entries, no
  literal occurs twice, and entry number \<open>i\<close> pairs a literal that is not placeholder-shaped
  with the placeholder built from counter value \<open>i\<close> and a key that \<open>prov\<close> relates to
  the literal.
\<close>

definition pass_inv :: "(string \<Rightarrow> string \<Rightarrow> bool) \<Rightarrow> maskState \<Rightarrow> bool" where
  "pass_inv prov st \<longleftrightarrow>
     st_maskedPIIEntities st = st_allMatches st \<and>
     st_counter st = length (st_allMatches st) \<and>
     distinct (map fst (st_allMatches st)) \<and>
     (\<forall>i<length (st_allMatches st).
        \<exists>key. prov key (fst (st_allMatches st ! i)) \<and>
              snd (st_allMatches st ! i) = placeholder key i \<and>
              \<not> MatchString placeholderPattern (fst (st_allMatches st ! i)))"

lemma pass_inv_step:
  assumes "pass_inv prov st" "prov key m"
    "map_of (st_allMatches st) m = None" "\<not> MatchString placeholderPattern m"
  shows "pass_inv prov
           (st\<lparr>st_allMatches := st_allMatches st @ [(m, placeholder key (st_counter st))],
               st_maskedPIIEntities := st_maskedPIIEntities st @ [(m, placeholder key (st_counter st))],
               st_counter := st_counter st + 1\<rparr>)"
proof -
  from assms(3) have "m \<notin> fst ` set (st_allMatches st)"
    by (simp add: map_of_eq_None_iff)
  with assms(1,2,4) show ?thesis
    by (auto simp: pass_inv_def nth_append less_Suc_eq)
qed

lemma scanMatches_inv:
  "pass_inv prov st \<Longrightarrow> \<forall>m\<in>set ms. prov key m \<Longrightarrow> pass_inv prov (scanMatches key ms st)"
proof (induction ms arbitrary: st)
  case Nil
  then show ?case by simp
next
  case (Cons m ms)
  show ?case
  proof (cases "map_of (st_allMatches st) m = None \<and> \<not> MatchString placeholderPattern m")
    case True
    with Cons.prems have "pass_inv prov
           (st\<lparr>st_allMatches := st_allMatches st @ [(m, placeholder key (st_counter st))],
               st_maskedPIIEntities := st_maskedPIIEntities st @ [(m, placeholder key (st_counter st))],
               st_counter := st_counter st + 1\<rparr>)"
      by (intro pass_inv_step) auto
    with Cons True show ?thesis by simp
  next
    case False
    with Cons show ?thesis by auto
  qed
qed

lemma scanMatches_keys:
  "fst ` set (st_allMatches (scanMatches key ms st)) =
     fst ` set (st_allMatches st) \<union> {m \<in> set ms. \<not> MatchString placeholderPattern m}"
proof (induction ms arbitrary: st)
  case Nil
  then show ?case by simp
next
  case (Cons m ms)
  show ?case
  proof (cases "map_of (st_allMatches st) m = None \<and> \<not> MatchString placeholderPattern m")
    case True
    then show ?thesis by (simp add: Cons.IH) auto
  next
    case False
    then have "m \<in> fst ` set (st_allMatches st) \<or> MatchString placeholderPattern m"
      by (auto simp: map_of_eq_None_iff)
    with False show ?thesis by (simp add: Cons.IH) auto
  qed
qed

lemma scanEntities_inv:
  "pass_inv prov st \<Longrightarrow>
   \<forall>(key, pattern)\<in>set ents. \<forall>m\<in>set (FindAllString pattern content). prov key m \<Longrightarrow>
   pass_inv prov (scanEntities content ents st)"
proof (induction ents arbitrary: st)
  case Nil
  then show ?case by simp
next
  case (Cons e ents)
  obtain key pattern where e: "e = (key, pattern)" by (cases e)
  with Cons.prems have "pass_inv prov (scanMatches key (FindAllString pattern content) st)"
    by (intro scanMatches_inv) auto
  with Cons e show ?case by simp
qed

lemma scanEntities_keys:
  "fst ` set (st_allMatches (scanEntities content ents st)) =
     fst ` set (st_allMatches st) \<union>
     {m. \<exists>(key, pattern)\<in>set ents.
           m \<in> set (FindAllString pattern content) \<and> \<not> MatchString placeholderPattern m}"
proof (induction ents arbitrary: st)
  case Nil
  then show ?case by simp
next
  case (Cons e ents)
  obtain key pattern where e: "e = (key, pattern)" by (cases e)
  show ?case unfolding e by (simp add: Cons.IH scanMatches_keys) blast
qed

definition matched_by :: "string \<Rightarrow> (string \<times> regex) list \<Rightarrow> string \<Rightarrow> string \<Rightarrow> bool" where
  "matched_by content piiEntities key m \<longleftrightarrow>
     (\<exists>pattern. (key, pattern) \<in> set piiEntities \<and> m \<in> set (FindAllString pattern content))"

lemma firstPass_inv: "pass_inv (matched_by content piiEntities) (firstPass content piiEntities)"
  unfolding firstPass_def
  by (rule scanEntities_inv) (auto simp: pass_inv_def matched_by_def)

lemma firstPass_keys:
  "fst ` set (st_allMatches (firstPass content piiEntities)) =
     {m. \<exists>(key, pattern)\<in>set piiEntities.
           m \<in> set (FindAllString pattern content) \<and> \<not> MatchString placeholderPattern m}"
  by (simp add: firstPass_def scanEntities_keys)

lemma pass_inv_distinct_snd:
  assumes "pass_inv prov st"
  shows "distinct (map snd (st_allMatches st))"
proof -
  let ?am = "st_allMatches st"
  have "\<And>i j. i < length ?am \<Longrightarrow> j < length ?am \<Longrightarrow> snd (?am ! i) = snd (?am ! j) \<Longrightarrow> i = j"
  proof -
    fix i j assume "i < length ?am" "j < length ?am" "snd (?am ! i) = snd (?am ! j)"
    with assms obtain k1 k2 where "placeholder k1 i = placeholder k2 j"
      unfolding pass_inv_def by metis
    then show "i = j" by (rule placeholder_inj)
  qed
  then show ?thesis unfolding distinct_conv_nth by auto
qed

lemma range_order_set: "mset (order ks) = mset ks \<Longrightarrow> set (order ks) = set ks"
  by (metis set_mset_mset)

lemma set_sortByLengthDesc [simp]: "set (sortByLengthDesc xs) = set xs"
  by (simp add: sortByLengthDesc_def)

section \<open>Properties of replacement\<close>

lemma replaceEach_absent: "\<not> sublist old s \<Longrightarrow> replaceEach old new s = s"
proof (induction s)
  case Nil
  then show ?case by simp
next
  case (Cons c cs)
  from Cons.prems have "\<not> prefix old (c # cs)" and "\<not> sublist old cs"
    by (auto simp: sublist_Cons_right)
  with Cons.IH show ?case by simp
qed

lemma ReplaceAll_absent: "\<not> sublist old s \<Longrightarrow> ReplaceAll s old new = s"
  by (cases "old = []") (auto simp: ReplaceAll_def replaceEach_absent)

lemma restore_is_sequential_ReplaceAll:
  "restorePIIInResponse originalContent maskedPIIEntities =
     foldl (\<lambda>transformedContent (original, placeholder).
              ReplaceAll transformedContent placeholder original)
       originalContent maskedPIIEntities"
proof -
  have "(\<lambda>transformedContent (original, placeholder).
            if sublist placeholder transformedContent
            then ReplaceAll transformedContent placeholder original
            else transformedContent)
      = (\<lambda>transformedContent (original, placeholder).
            ReplaceAll transformedContent placeholder original)"
    by (auto simp: fun_eq_iff ReplaceAll_absent)
  then show ?thesis by (simp add: restorePIIInResponse_def)
qed

section \<open>Claims about the first pass\<close>

text \<open>
  Claim C7. A literal that matches the placeholder pattern \<open>^\[[A-Z_]+_[0-9a-f]{4}\]$\<close>
  is never assigned a placeholder (it is no key of \<open>allMatches\<close>), never added to the
  correlation map (it is no key of \<open>maskedPIIEntities\<close> nor of the entry that masking
  stores in the metadata), and never re-wrapped (it is not among the literals the second
  pass substitutes), whatever the detectors, the content and the order in which the
  second pass visits the keys.
\<close>

theorem C7_shaped_literal_is_skipped:
  assumes "MatchString placeholderPattern lit"
      and "mset (order (map fst (st_allMatches (firstPass content piiEntities))))
             = mset (map fst (st_allMatches (firstPass content piiEntities)))"
  shows "lit \<notin> fst ` set (st_allMatches (firstPass content piiEntities)) \<and>
         lit \<notin> fst ` set (st_maskedPIIEntities (firstPass content piiEntities)) \<and>
         lit \<notin> set (sortByLengthDesc (order (map fst (st_allMatches (firstPass content piiEntities))))) \<and>
         (snd (maskPIIFromContent order content piiEntities metadata) = metadata \<or>
          (\<exists>entry. snd (maskPIIFromContent order content piiEntities metadata)
                     = metadata(MetadataKeyPIIEntities \<mapsto> PIIMap entry) \<and>
                   lit \<notin> fst ` set entry))"
proof -
  let ?st = "firstPass content piiEntities"
  have inv: "pass_inv (matched_by content piiEntities) ?st" by (rule firstPass_inv)
  from assms(1) have a: "lit \<notin> fst ` set (st_allMatches ?st)"
    by (auto simp: firstPass_keys)
  from inv have eq: "st_maskedPIIEntities ?st = st_allMatches ?st"
    by (simp add: pass_inv_def)
  from assms(2) have "set (order (map fst (st_allMatches ?st))) = fst ` set (st_allMatches ?st)"
    by (metis range_order_set set_map)
  with a have c: "lit \<notin> set (sortByLengthDesc (order (map fst (st_allMatches ?st))))"
    by simp
  have d: "snd (maskPIIFromContent order content piiEntities metadata) = metadata \<or>
          (\<exists>entry. snd (maskPIIFromContent order content piiEntities metadata)
                     = metadata(MetadataKeyPIIEntities \<mapsto> PIIMap entry) \<and>
                   lit \<notin> fst ` set entry)"
  proof (cases "content = [] \<or> st_maskedPIIEntities ?st = []")
    case True
    then show ?thesis by (auto simp: maskPIIFromContent_def Let_def)
  next
    case False
    then have "snd (maskPIIFromContent order content piiEntities metadata)
                 = metadata(MetadataKeyPIIEntities \<mapsto> PIIMap (st_maskedPIIEntities ?st))"
      by (auto simp: maskPIIFromContent_def Let_def)
    with a eq show ?thesis by auto
  qed
  from a eq c d show ?thesis by simp
qed

text \<open>
  The detector \<open>[!-~]+\<close> on a content that holds a placeholder-shaped word: the word is
  matched and skipped.
\<close>

definition printable_word :: regex where
  "printable_word = OneOrMore (Cls [(CHR 0x21, CHR 0x7E)])"

theorem C7_shaped_literal_is_skipped_witness:
  "MatchString placeholderPattern ''[EMAIL_0000]'' \<and>
   FindAllString printable_word ''[EMAIL_0000] hi'' = [''[EMAIL_0000]'', ''hi''] \<and>
   ''[EMAIL_0000]'' \<notin> fst ` set (st_allMatches (firstPass ''[EMAIL_0000] hi'' [(''WORD'', printable_word)])) \<and>
   ''[EMAIL_0000]'' \<notin> fst ` set (st_maskedPIIEntities (firstPass ''[EMAIL_0000] hi'' [(''WORD'', printable_word)])) \<and>
   ''[EMAIL_0000]'' \<notin> set (sortByLengthDesc
      (map fst (st_allMatches (firstPass ''[EMAIL_0000] hi'' [(''WORD'', printable_word)])))) \<and>
   (snd (maskPIIFromContent (\<lambda>ks. ks) ''[EMAIL_0000] hi'' [(''WORD'', printable_word)] Map.empty) = Map.empty \<or>
    (\<exists>entry. snd (maskPIIFromContent (\<lambda>ks. ks) ''[EMAIL_0000] hi'' [(''WORD'', printable_word)] Map.empty)
               = Map.empty(MetadataKeyPIIEntities \<mapsto> PIIMap entry) \<and>
             ''[EMAIL_0000]'' \<notin> fst ` set entry))"
proof -
  have h1: "MatchString placeholderPattern ''[EMAIL_0000]''"
    by code_simp
  have h2: "FindAllString printable_word ''[EMAIL_0000] hi'' = [''[EMAIL_0000]'', ''hi'']"
    by code_simp
  note C7_shaped_literal_is_skipped
    [where lit = "''[EMAIL_0000]''" and order = "\<lambda>ks. ks" and content = "''[EMAIL_0000] hi''"
       and piiEntities = "[(''WORD'', printable_word)]" and metadata = Map.empty]
  with h1 h2 show ?thesis by simp
qed

text \<open>
  The correlation map. Whatever the content and the detectors, the map that the first
  pass builds (\<open>allMatches\<close>, equal to \<open>maskedPIIEntities\<close>) is a bijection between the
  distinct matched literals (the strings some detector matches that are not
  placeholder-shaped) and the placeholders: no literal occurs twice, no placeholder
  occurs twice, there are as many placeholders as literals, a literal matched any number
  of times has exactly one placeholder, and entry number \<open>i\<close> (counting from 0) carries the
  placeholder built from the name of a detector that matched the literal and the counter
  value \<open>i\<close>. The list of literals that the second pass goes through holds every literal
  exactly once. What the second pass makes of the content is another matter, see the
  section on nested replacement.
\<close>

lemma correlation_map_is_bijection:
  "(let st = firstPass content piiEntities;
        am = st_allMatches st;
        literals = {m. \<exists>(key, pattern)\<in>set piiEntities.
                         m \<in> set (FindAllString pattern content) \<and>
                         \<not> MatchString placeholderPattern m}
    in st_maskedPIIEntities st = am \<and>
       fst ` set am = literals \<and>
       distinct (map fst am) \<and>
       distinct (map snd am) \<and>
       bij_betw (\<lambda>l. lookup am l) literals (snd ` set am) \<and>
       card (snd ` set am) = card literals \<and>
       (\<forall>l\<in>literals. \<exists>!p. (l, p) \<in> set am) \<and>
       (\<forall>i<length am. \<exists>key. matched_by content piiEntities key (fst (am ! i)) \<and>
                               snd (am ! i) = placeholder key i) \<and>
       (mset (order (map fst am)) = mset (map fst am) \<longrightarrow>
          distinct (sortByLengthDesc (order (map fst am))) \<and>
          set (sortByLengthDesc (order (map fst am))) = literals \<and>
          (\<forall>l\<in>literals. (l, lookup am l) \<in> set am)))"
proof -
  let ?st = "firstPass content piiEntities"
  let ?am = "st_allMatches ?st"
  let ?lits = "{m. \<exists>(key, pattern)\<in>set piiEntities.
                         m \<in> set (FindAllString pattern content) \<and>
                         \<not> MatchString placeholderPattern m}"
  have inv: "pass_inv (matched_by content piiEntities) ?st" by (rule firstPass_inv)
  have keys: "fst ` set ?am = ?lits" by (rule firstPass_keys)
  from inv have eq: "st_maskedPIIEntities ?st = ?am" and d1: "distinct (map fst ?am)"
    by (simp_all add: pass_inv_def)
  from inv have d2: "distinct (map snd ?am)" by (rule pass_inv_distinct_snd)
  have look: "lookup ?am l = p" if "(l, p) \<in> set ?am" for l p
    using that d1 by (simp add: lookup_def)
  have uniq: "\<exists>!p. (l, p) \<in> set ?am" if "l \<in> ?lits" for l
  proof -
    from that keys obtain p where p: "(l, p) \<in> set ?am" by force
    moreover have "q = p" if "(l, q) \<in> set ?am" for q
      using that p d1 by (meson eq_key_imp_eq_value)
    ultimately show ?thesis by blast
  qed
  have inlook: "(l, lookup ?am l) \<in> set ?am" if "l \<in> ?lits" for l
  proof -
    from that keys obtain p where p: "(l, p) \<in> set ?am" by force
    with look show ?thesis by simp
  qed
  have bij: "bij_betw (\<lambda>l. lookup ?am l) ?lits (snd ` set ?am)"
  proof (rule bij_betwI')
    fix x y assume x: "x \<in> ?lits" and y: "y \<in> ?lits"
    show "(lookup ?am x = lookup ?am y) = (x = y)"
    proof
      assume e: "lookup ?am x = lookup ?am y"
      from x have "(x, lookup ?am x) \<in> set ?am" by (rule inlook)
      moreover from y have "(y, lookup ?am y) \<in> set ?am" by (rule inlook)
      ultimately have "(x, lookup ?am x) \<in> set ?am" "(y, lookup ?am y) \<in> set ?am" .
      with e d2 show "x = y"
        by (metis (no_types, lifting) distinct_map eq_snd_iff fst_conv inj_on_def)
    qed simp
  next
    fix x assume "x \<in> ?lits"
    then have "(x, lookup ?am x) \<in> set ?am" by (rule inlook)
    then show "lookup ?am x \<in> snd ` set ?am" by force
  next
    fix p assume "p \<in> snd ` set ?am"
    then obtain l where lp: "(l, p) \<in> set ?am" by auto
    then have "l \<in> fst ` set ?am" by force
    with keys have "l \<in> ?lits" by simp
    moreover from lp have "p = lookup ?am l" by (simp add: look)
    ultimately show "\<exists>l\<in>?lits. p = lookup ?am l" by blast
  qed
  have card: "card (snd ` set ?am) = card ?lits"
    using bij by (simp add: bij_betw_same_card)
  from inv have fmt: "\<forall>i<length ?am. \<exists>key. matched_by content piiEntities key (fst (?am ! i)) \<and>
                               snd (?am ! i) = placeholder key i"
    unfolding pass_inv_def by blast
  have ord: "distinct (sortByLengthDesc (order (map fst ?am))) \<and>
          set (sortByLengthDesc (order (map fst ?am))) = ?lits"
    if "mset (order (map fst ?am)) = mset (map fst ?am)"
  proof -
    from that d1 have "distinct (order (map fst ?am))"
      by (metis mset_eq_imp_distinct_iff)
    moreover from that have "set (order (map fst ?am)) = fst ` set ?am"
      by (metis range_order_set set_map)
    ultimately show ?thesis using keys by (simp add: sortByLengthDesc_def)
  qed
  show ?thesis
    unfolding Let_def
    using eq keys d1 d2 bij card uniq fmt ord inlook by blast
qed

text \<open>
  The detector map with the built-in entities EMAIL and PHONE, in the two orders in
  which a \<open>range\<close> loop can visit it.
\<close>

definition builtin_email_phone :: "(string \<times> regex) list" where
  "builtin_email_phone =
     [(DefaultEmailEntityName, DefaultEmailRegex), (DefaultPhoneEntityName, DefaultPhoneRegex)]"

definition builtin_phone_email :: "(string \<times> regex) list" where
  "builtin_phone_email =
     [(DefaultPhoneEntityName, DefaultPhoneRegex), (DefaultEmailEntityName, DefaultEmailRegex)]"

text \<open>
  An email address that occurs twice, and a phone number: two literals, two placeholders,
  counters 0 and 1.
\<close>

lemma correlation_map_example:
  "FindAllString DefaultEmailRegex ''jane@example.com 212-555-0100 jane@example.com''
     = [''jane@example.com'', ''jane@example.com''] \<and>
   st_allMatches (firstPass ''jane@example.com 212-555-0100 jane@example.com'' builtin_email_phone)
     = [(''jane@example.com'', ''[EMAIL_0000]''), (''212-555-0100'', ''[PHONE_0001]'')] \<and>
   (let st = firstPass ''jane@example.com 212-555-0100 jane@example.com'' builtin_email_phone;
        am = st_allMatches st;
        literals = {m. \<exists>(key, pattern)\<in>set builtin_email_phone.
                         m \<in> set (FindAllString pattern ''jane@example.com 212-555-0100 jane@example.com'') \<and>
                         \<not> MatchString placeholderPattern m}
    in st_maskedPIIEntities st = am \<and>
       fst ` set am = literals \<and>
       distinct (map fst am) \<and>
       distinct (map snd am) \<and>
       bij_betw (\<lambda>l. lookup am l) literals (snd ` set am) \<and>
       card (snd ` set am) = card literals \<and>
       (\<forall>l\<in>literals. \<exists>!p. (l, p) \<in> set am) \<and>
       (\<forall>i<length am. \<exists>key. matched_by ''jane@example.com 212-555-0100 jane@example.com''
                                 builtin_email_phone key (fst (am ! i)) \<and>
                               snd (am ! i) = placeholder key i) \<and>
       (mset ((\<lambda>ks. ks) (map fst am)) = mset (map fst am) \<longrightarrow>
          distinct (sortByLengthDesc ((\<lambda>ks. ks) (map fst am))) \<and>
          set (sortByLengthDesc ((\<lambda>ks. ks) (map fst am))) = literals \<and>
          (\<forall>l\<in>literals. (l, lookup am l) \<in> set am)))"
proof -
  have a: "FindAllString DefaultEmailRegex ''jane@example.com 212-555-0100 jane@example.com''
     = [''jane@example.com'', ''jane@example.com'']"
    by code_simp
  have b: "st_allMatches (firstPass ''jane@example.com 212-555-0100 jane@example.com'' builtin_email_phone)
     = [(''jane@example.com'', ''[EMAIL_0000]''), (''212-555-0100'', ''[PHONE_0001]'')]"
    by code_simp
  note c = correlation_map_is_bijection
    [where content = "''jane@example.com 212-555-0100 jane@example.com''"
       and piiEntities = builtin_email_phone and order = "\<lambda>ks. ks"]
  show ?thesis
    by (intro conjI) (rule a, rule b, rule c)
qed

text \<open>
  Claim C3 says that two runs of masking on identical inputs give the identical output
  and the identical map. The detectors are a Go map, and the first pass visits it with
  \<open>range\<close>, in an order that differs from run to run: with EMAIL and PHONE and a content
  that holds an address and a number, the run that visits EMAIL first and the run that
  visits PHONE first give different counters to the two literals, and different outputs.
\<close>

theorem C3_counterexample:
  "mset builtin_phone_email = mset builtin_email_phone \<and>
   fst (maskPIIFromContent (\<lambda>ks. ks) ''x@y.zz 212-555-0100'' builtin_email_phone Map.empty)
     = Inr ''[EMAIL_0000] [PHONE_0001]'' \<and>
   fst (maskPIIFromContent (\<lambda>ks. ks) ''x@y.zz 212-555-0100'' builtin_phone_email Map.empty)
     = Inr ''[EMAIL_0001] [PHONE_0000]'' \<and>
   snd (maskPIIFromContent (\<lambda>ks. ks) ''x@y.zz 212-555-0100'' builtin_email_phone Map.empty)
       MetadataKeyPIIEntities
     = Some (PIIMap [(''x@y.zz'', ''[EMAIL_0000]''), (''212-555-0100'', ''[PHONE_0001]'')]) \<and>
   snd (maskPIIFromContent (\<lambda>ks. ks) ''x@y.zz 212-555-0100'' builtin_phone_email Map.empty)
       MetadataKeyPIIEntities
     = Some (PIIMap [(''212-555-0100'', ''[PHONE_0000]''), (''x@y.zz'', ''[EMAIL_0001]'')])"
proof -
  have p: "mset builtin_phone_email = mset builtin_email_phone"
    by (simp add: builtin_phone_email_def builtin_email_phone_def)
  have a: "fst (maskPIIFromContent (\<lambda>ks. ks) ''x@y.zz 212-555-0100'' builtin_email_phone Map.empty)
     = Inr ''[EMAIL_0000] [PHONE_0001]''"
    by code_simp
  have b: "fst (maskPIIFromContent (\<lambda>ks. ks) ''x@y.zz 212-555-0100'' builtin_phone_email Map.empty)
     = Inr ''[EMAIL_0001] [PHONE_0000]''"
    by code_simp
  have c: "snd (maskPIIFromContent (\<lambda>ks. ks) ''x@y.zz 212-555-0100'' builtin_email_phone Map.empty)
       MetadataKeyPIIEntities
     = Some (PIIMap [(''x@y.zz'', ''[EMAIL_0000]''), (''212-555-0100'', ''[PHONE_0001]'')])"
    by code_simp
  have d: "snd (maskPIIFromContent (\<lambda>ks. ks) ''x@y.zz 212-555-0100'' builtin_phone_email Map.empty)
       MetadataKeyPIIEntities
     = Some (PIIMap [(''212-555-0100'', ''[PHONE_0000]''), (''x@y.zz'', ''[EMAIL_0001]'')])"
    by code_simp
  from p a b c d show ?thesis by (intro conjI)
qed

text \<open>
  Claim C3, amended. Masking is deterministic up to the orders in which \<open>range\<close> visits
  the two maps, the detector map in the first pass and \<open>allMatches\<close> in the second (the
  sort by length does not fix the order of literals of equal length): two runs on the
  same content and the same detectors give placeholders to the same set of literals and
  allocate the same number of placeholders (the counter ends at the same value); which
  entity label and which counter a literal gets can differ with the first order, and the
  masked output with either.
\<close>

theorem C3_literals_do_not_depend_on_visiting_order:
  assumes "mset piiEntities' = mset piiEntities"
  shows "fst ` set (st_allMatches (firstPass content piiEntities'))
           = fst ` set (st_allMatches (firstPass content piiEntities)) \<and>
         length (st_allMatches (firstPass content piiEntities'))
           = length (st_allMatches (firstPass content piiEntities)) \<and>
         st_counter (firstPass content piiEntities') = st_counter (firstPass content piiEntities)"
proof -
  let ?am = "st_allMatches (firstPass content piiEntities)"
  let ?am' = "st_allMatches (firstPass content piiEntities')"
  from assms have "set piiEntities' = set piiEntities" by (metis set_mset_mset)
  then have keys: "fst ` set ?am' = fst ` set ?am" by (simp add: firstPass_keys)
  have inv: "pass_inv (matched_by content piiEntities) (firstPass content piiEntities)"
    and inv': "pass_inv (matched_by content piiEntities') (firstPass content piiEntities')"
    by (rule firstPass_inv)+
  from inv have "length ?am = card (fst ` set ?am)"
    by (metis pass_inv_def distinct_card length_map set_map)
  moreover from inv' have "length ?am' = card (fst ` set ?am')"
    by (metis pass_inv_def distinct_card length_map set_map)
  ultimately have len: "length ?am' = length ?am" using keys by simp
  with inv inv' have "st_counter (firstPass content piiEntities') = st_counter (firstPass content piiEntities)"
    by (simp add: pass_inv_def)
  with keys len show ?thesis by simp
qed

theorem C3_literals_do_not_depend_on_visiting_order_witness:
  "mset builtin_phone_email = mset builtin_email_phone \<and>
   fst ` set (st_allMatches (firstPass ''x@y.zz 212-555-0100'' builtin_phone_email))
     = fst ` set (st_allMatches (firstPass ''x@y.zz 212-555-0100'' builtin_email_phone)) \<and>
   length (st_allMatches (firstPass ''x@y.zz 212-555-0100'' builtin_phone_email))
     = length (st_allMatches (firstPass ''x@y.zz 212-555-0100'' builtin_email_phone)) \<and>
   st_counter (firstPass ''x@y.zz 212-555-0100'' builtin_phone_email)
     = st_counter (firstPass ''x@y.zz 212-555-0100'' builtin_email_phone)"
proof -
  have p: "mset builtin_phone_email = mset builtin_email_phone"
    by (simp add: builtin_phone_email_def builtin_email_phone_def)
  from C3_literals_do_not_depend_on_visiting_order [OF p] p show ?thesis by blast
qed

section \<open>The two scenarios\<close>

lemma mset_two:
  assumes "mset xs = mset [a, b]"
  shows "xs = [a, b] \<or> xs = [b, a]"
proof -
  from assms have "length xs = 2" by (metis length_Cons list.size(3) size_mset One_nat_def Suc_1)
  then obtain x y where xs: "xs = [x, y]"
    by (metis (no_types, opaque_lifting) One_nat_def Suc_1 length_0_conv length_Suc_conv)
  with assms have "{#x, y#} = {#a, b#}" by simp
  then have "(x = a \<and> y = b) \<or> (x = b \<and> y = a)"
    by (auto simp: add_eq_conv_ex)
  with xs show ?thesis by auto
qed

definition scenario_input :: string where
  "scenario_input = ''Contact jane@example.com or 555-123-4567''"

lemma scenario_phone_no_match: "FindAllString DefaultPhoneRegex scenario_input = []"
  by code_simp

lemma scenario_email_match:
  "FindAllString DefaultEmailRegex scenario_input = [''jane@example.com'']"
  by code_simp

lemma scenario_email_not_shaped: "\<not> MatchString placeholderPattern ''jane@example.com''"
  by code_simp

lemma placeholder_EMAIL_0: "placeholder ''EMAIL'' 0 = ''[EMAIL_0000]''"
  by code_simp

lemma scenario_firstPass_ep:
  "firstPass scenario_input builtin_email_phone =
     \<lparr>st_allMatches = [(''jane@example.com'', ''[EMAIL_0000]'')],
      st_maskedPIIEntities = [(''jane@example.com'', ''[EMAIL_0000]'')],
      st_counter = 1\<rparr>"
  by (simp add: firstPass_def builtin_email_phone_def scenario_phone_no_match
      scenario_email_match scenario_email_not_shaped DefaultEmailEntityName_def
      placeholder_EMAIL_0)

lemma scenario_firstPass_pe:
  "firstPass scenario_input builtin_phone_email =
     \<lparr>st_allMatches = [(''jane@example.com'', ''[EMAIL_0000]'')],
      st_maskedPIIEntities = [(''jane@example.com'', ''[EMAIL_0000]'')],
      st_counter = 1\<rparr>"
  by (simp add: firstPass_def builtin_phone_email_def scenario_phone_no_match
      scenario_email_match scenario_email_not_shaped DefaultEmailEntityName_def
      placeholder_EMAIL_0)

lemma scenario_substitute:
  "ReplaceAll scenario_input ''jane@example.com'' ''[EMAIL_0000]''
     = ''Contact [EMAIL_0000] or 555-123-4567''"
  by code_simp

lemma scenario_restore:
  "restorePIIInResponse ''Contact [EMAIL_0000] or 555-123-4567''
     [(''jane@example.com'', ''[EMAIL_0000]'')] = scenario_input"
  by code_simp

lemma scenario_nonempty: "scenario_input \<noteq> []"
  by (simp add: scenario_input_def)

text \<open>
  Claim C2 says that masking the scenario input with EMAIL and PHONE gives two
  placeholders. The built-in phone pattern requires the exchange code (the second group
  of three digits) to start with 2 to 9, so it does not match \<open>555-123-4567\<close>: the only
  literal is the email address, and the phone number stays in the output.
\<close>

theorem C2_counterexample:
  "FindAllString DefaultPhoneRegex scenario_input = [] \<and>
   fst (maskPIIFromContent (\<lambda>ks. ks) scenario_input builtin_email_phone Map.empty)
     = Inr ''Contact [EMAIL_0000] or 555-123-4567'' \<and>
   snd (maskPIIFromContent (\<lambda>ks. ks) scenario_input builtin_email_phone Map.empty)
       MetadataKeyPIIEntities
     = Some (PIIMap [(''jane@example.com'', ''[EMAIL_0000]'')])"
  by (simp add: maskPIIFromContent_def scenario_nonempty scenario_firstPass_ep
      sortByLengthDesc_def substitute_def lookup_def scenario_substitute
      scenario_phone_no_match)

text \<open>
  Claim C2, amended. With exactly EMAIL and PHONE enabled, in whichever order the
  detector map is visited, masking \<open>Contact jane@example.com or 555-123-4567\<close> gives
  \<open>Contact [EMAIL_0000] or 555-123-4567\<close>, with the one placeholder \<open>[EMAIL_0000]\<close> for the
  email literal, and stores the entry that maps the address to it; restoring that output
  with that entry gives the original string back.
\<close>

theorem C2_scenario_masks_the_email_only:
  assumes ents: "mset piiEntities = mset builtin_email_phone"
      and ord: "\<And>ks. mset (order ks) = mset ks"
      and vis: "mset entry' = mset [(''jane@example.com'', ''[EMAIL_0000]'')]"
  shows "maskPIIFromContent order scenario_input piiEntities metadata
           = (Inr ''Contact [EMAIL_0000] or 555-123-4567'',
              metadata(MetadataKeyPIIEntities \<mapsto> PIIMap [(''jane@example.com'', ''[EMAIL_0000]'')])) \<and>
         restorePIIInResponse ''Contact [EMAIL_0000] or 555-123-4567'' entry' = scenario_input"
proof -
  from ents have "piiEntities = builtin_email_phone \<or> piiEntities = builtin_phone_email"
    unfolding builtin_email_phone_def builtin_phone_email_def by (rule mset_two)
  then have fp: "firstPass scenario_input piiEntities =
     \<lparr>st_allMatches = [(''jane@example.com'', ''[EMAIL_0000]'')],
      st_maskedPIIEntities = [(''jane@example.com'', ''[EMAIL_0000]'')],
      st_counter = 1\<rparr>"
    using scenario_firstPass_ep scenario_firstPass_pe by auto
  from ord [of "[''jane@example.com'']"] have o: "order [''jane@example.com''] = [''jane@example.com'']"
    by simp
  have "maskPIIFromContent order scenario_input piiEntities metadata
           = (Inr ''Contact [EMAIL_0000] or 555-123-4567'',
              metadata(MetadataKeyPIIEntities \<mapsto> PIIMap [(''jane@example.com'', ''[EMAIL_0000]'')]))"
    by (simp add: maskPIIFromContent_def scenario_nonempty fp o sortByLengthDesc_def
        substitute_def lookup_def scenario_substitute)
  moreover from vis have "entry' = [(''jane@example.com'', ''[EMAIL_0000]'')]" by simp
  ultimately show ?thesis by (simp add: scenario_restore)
qed

theorem C2_scenario_masks_the_email_only_witness:
  "mset builtin_phone_email = mset builtin_email_phone \<and>
   maskPIIFromContent rev scenario_input builtin_phone_email Map.empty
     = (Inr ''Contact [EMAIL_0000] or 555-123-4567'',
        [MetadataKeyPIIEntities \<mapsto> PIIMap [(''jane@example.com'', ''[EMAIL_0000]'')]]) \<and>
   restorePIIInResponse ''Contact [EMAIL_0000] or 555-123-4567''
     [(''jane@example.com'', ''[EMAIL_0000]'')] = scenario_input"
proof -
  have p: "mset builtin_phone_email = mset builtin_email_phone"
    by (simp add: builtin_phone_email_def builtin_email_phone_def)
  have o: "\<And>ks :: string list. mset (rev ks) = mset ks" by simp
  from C2_scenario_masks_the_email_only [OF p o refl, of Map.empty] p show ?thesis by simp
qed

lemma scenario_email_MatchString: "MatchString DefaultEmailRegex scenario_input"
  by code_simp

lemma scenario_email_redacted:
  "ReplaceAllString DefaultEmailRegex scenario_input ''*****'' = ''Contact ***** or 555-123-4567''"
  by code_simp

lemma scenario_phone_MatchString: "\<not> MatchString DefaultPhoneRegex scenario_input"
  by code_simp

lemma scenario_phone_MatchString_redacted:
  "\<not> MatchString DefaultPhoneRegex ''Contact ***** or 555-123-4567''"
  by code_simp

lemma scenario_redact_ep:
  "redactPIIFromContent scenario_input builtin_email_phone = ''Contact ***** or 555-123-4567''"
  by (simp add: redactPIIFromContent_def scenario_nonempty builtin_email_phone_def
      scenario_email_MatchString scenario_email_redacted scenario_phone_MatchString_redacted)

lemma scenario_redact_pe:
  "redactPIIFromContent scenario_input builtin_phone_email = ''Contact ***** or 555-123-4567''"
  by (simp add: redactPIIFromContent_def scenario_nonempty builtin_phone_email_def
      scenario_email_MatchString scenario_email_redacted scenario_phone_MatchString)

text \<open>
  Claim C8 says that redaction of the scenario input gives \<open>Contact ***** or *****\<close>. The
  phone pattern does not match \<open>555-123-4567\<close>, so the number is not redacted.
\<close>

theorem C8_counterexample:
  "redactPIIFromContent scenario_input builtin_email_phone = ''Contact ***** or 555-123-4567'' \<and>
   redactPIIFromContent scenario_input builtin_email_phone \<noteq> ''Contact ***** or *****''"
  by (simp add: scenario_redact_ep)

text \<open>
  Claim C8, amended. With exactly EMAIL and PHONE enabled, in whichever order the
  detector map is visited, redaction of \<open>Contact jane@example.com or 555-123-4567\<close> gives
  \<open>Contact ***** or 555-123-4567\<close>; and in redaction mode the response phase returns the
  empty modification, whatever the response body and the metadata: it never restores.
\<close>

theorem C8_scenario_redacts_the_email_only:
  assumes "mset piiEntities = mset builtin_email_phone"
      and "RedactPII params"
  shows "redactPIIFromContent scenario_input piiEntities = ''Contact ***** or 555-123-4567'' \<and>
         OnResponse order params ctx = UpstreamResponseModifications None"
proof -
  from assms(1) have "piiEntities = builtin_email_phone \<or> piiEntities = builtin_phone_email"
    unfolding builtin_email_phone_def builtin_phone_email_def by (rule mset_two)
  then have "redactPIIFromContent scenario_input piiEntities = ''Contact ***** or 555-123-4567''"
    using scenario_redact_ep scenario_redact_pe by auto
  moreover from assms(2) have "OnResponse order params ctx = UpstreamResponseModifications None"
    by (simp add: OnResponse_def)
  ultimately show ?thesis by simp
qed

theorem C8_scenario_redacts_the_email_only_witness:
  "mset builtin_phone_email = mset builtin_email_phone \<and>
   RedactPII \<lparr>PIIEntities = builtin_phone_email, JsonPath = ''$.messages'', RedactPII = True\<rparr> \<and>
   redactPIIFromContent scenario_input builtin_phone_email = ''Contact ***** or 555-123-4567'' \<and>
   OnResponse (\<lambda>es. es)
     \<lparr>PIIEntities = builtin_phone_email, JsonPath = ''$.messages'', RedactPII = True\<rparr>
     \<lparr>ResponseBody = Some ''Contact ***** or 555-123-4567'',
      ResponseMetadata = [MetadataKeyPIIEntities \<mapsto> PIIMap [(''jane@example.com'', ''*****'')]]\<rparr>
     = UpstreamResponseModifications None"
proof -
  have p: "mset builtin_phone_email = mset builtin_email_phone"
    by (simp add: builtin_phone_email_def builtin_email_phone_def)
  have r: "RedactPII \<lparr>PIIEntities = builtin_phone_email, JsonPath = ''$.messages'', RedactPII = True\<rparr>"
    by simp
  from C8_scenario_redacts_the_email_only [OF p r] p r show ?thesis by blast
qed

section \<open>Nested replacement\<close>

text \<open>A custom detector \<open>NUM\<close> with the pattern \<open>[0-9]+\<close>.\<close>

definition number_detector :: "(string \<times> regex) list" where
  "number_detector = [(''NUM'', OneOrMore (Cls digit))]"

lemma sortByLengthDesc_descending:
  "sorted (map (\<lambda>s. - int (length s)) (sortByLengthDesc originals))"
  by (simp add: sortByLengthDesc_def)

text \<open>
  Claim C5, at the failing input. With the detector \<open>NUM\<close> and the content \<open>10 0\<close>, the
  literals are \<open>10\<close> (placeholder \<open>[NUM_0000]\<close>) and \<open>0\<close> (placeholder \<open>[NUM_0001]\<close>), and
  \<open>0\<close> is a strict substring of \<open>10\<close>. The longer literal is substituted first; the pass
  for \<open>0\<close> then rewrites the four zeros inside the placeholder just inserted. The output
  does not contain \<open>[NUM_0000]\<close>.
\<close>

theorem C5_nested_replacement:
  "FindAllString (OneOrMore (Cls digit)) ''10 0'' = [''10'', ''0''] \<and>
   strict_sublist ''0'' ''10'' \<and>
   snd (maskPIIFromContent (\<lambda>ks. ks) ''10 0'' number_detector Map.empty) MetadataKeyPIIEntities
     = Some (PIIMap [(''10'', ''[NUM_0000]''), (''0'', ''[NUM_0001]'')]) \<and>
   fst (maskPIIFromContent (\<lambda>ks. ks) ''10 0'' number_detector Map.empty)
     = Inr ''[NUM_[NUM_0001][NUM_0001][NUM_0001][NUM_0001]] [NUM_0001]'' \<and>
   fst (maskPIIFromContent rev ''10 0'' number_detector Map.empty)
     = Inr ''[NUM_[NUM_0001][NUM_0001][NUM_0001][NUM_0001]] [NUM_0001]'' \<and>
   \<not> sublist ''[NUM_0000]'' ''[NUM_[NUM_0001][NUM_0001][NUM_0001][NUM_0001]] [NUM_0001]''"
proof -
  have a: "FindAllString (OneOrMore (Cls digit)) ''10 0'' = [''10'', ''0'']"
    by code_simp
  have b: "strict_sublist ''0'' ''10''"
    by (simp add: strict_sublist_def sublist_code(3))
  have c: "snd (maskPIIFromContent (\<lambda>ks. ks) ''10 0'' number_detector Map.empty) MetadataKeyPIIEntities
     = Some (PIIMap [(''10'', ''[NUM_0000]''), (''0'', ''[NUM_0001]'')])"
    by code_simp
  have d: "fst (maskPIIFromContent (\<lambda>ks. ks) ''10 0'' number_detector Map.empty)
     = Inr ''[NUM_[NUM_0001][NUM_0001][NUM_0001][NUM_0001]] [NUM_0001]''"
    by code_simp
  have e: "fst (maskPIIFromContent rev ''10 0'' number_detector Map.empty)
     = Inr ''[NUM_[NUM_0001][NUM_0001][NUM_0001][NUM_0001]] [NUM_0001]''"
    by code_simp
  have f: "\<not> sublist ''[NUM_0000]'' ''[NUM_[NUM_0001][NUM_0001][NUM_0001][NUM_0001]] [NUM_0001]''"
    by code_simp
  from a b c d e f show ?thesis by (intro conjI)
qed

text \<open>
  Claim C6 says that the correlation map is a bijection between the distinct literals
  and the placeholders, and that every occurrence of a literal in the content is replaced
  by the one placeholder of the literal. With the detector \<open>NUM\<close> and the content
  \<open>10 10 0\<close> the map is a bijection: the literal \<open>10\<close>, matched twice, has the placeholder
  \<open>[NUM_0000]\<close>, and \<open>0\<close> has \<open>[NUM_0001]\<close>. The pass for \<open>10\<close> replaces both
  occurrences by \<open>[NUM_0000]\<close>; the pass for \<open>0\<close>, which reads the text produced so far,
  then rewrites the zeros of both placeholders. In the output of masking neither
  occurrence of \<open>10\<close> is replaced by \<open>[NUM_0000]\<close>, in whichever order the second pass
  visited the map.
\<close>

theorem C6_occurrences_lose_their_placeholder:
  "FindAllString (OneOrMore (Cls digit)) ''10 10 0'' = [''10'', ''10'', ''0''] \<and>
   st_allMatches (firstPass ''10 10 0'' number_detector)
     = [(''10'', ''[NUM_0000]''), (''0'', ''[NUM_0001]'')] \<and>
   substitute [(''10'', ''[NUM_0000]''), (''0'', ''[NUM_0001]'')] [''10''] ''10 10 0''
     = ''[NUM_0000] [NUM_0000] 0'' \<and>
   fst (maskPIIFromContent (\<lambda>ks. ks) ''10 10 0'' number_detector Map.empty)
     = Inr (''[NUM_[NUM_0001][NUM_0001][NUM_0001][NUM_0001]] '' @
            ''[NUM_[NUM_0001][NUM_0001][NUM_0001][NUM_0001]] [NUM_0001]'') \<and>
   fst (maskPIIFromContent rev ''10 10 0'' number_detector Map.empty)
     = Inr (''[NUM_[NUM_0001][NUM_0001][NUM_0001][NUM_0001]] '' @
            ''[NUM_[NUM_0001][NUM_0001][NUM_0001][NUM_0001]] [NUM_0001]'') \<and>
   \<not> sublist ''[NUM_0000]''
       (''[NUM_[NUM_0001][NUM_0001][NUM_0001][NUM_0001]] '' @
        ''[NUM_[NUM_0001][NUM_0001][NUM_0001][NUM_0001]] [NUM_0001]'')"
proof -
  have a: "FindAllString (OneOrMore (Cls digit)) ''10 10 0'' = [''10'', ''10'', ''0'']"
    by code_simp
  have b: "st_allMatches (firstPass ''10 10 0'' number_detector)
     = [(''10'', ''[NUM_0000]''), (''0'', ''[NUM_0001]'')]"
    by code_simp
  have c: "substitute [(''10'', ''[NUM_0000]''), (''0'', ''[NUM_0001]'')] [''10''] ''10 10 0''
     = ''[NUM_0000] [NUM_0000] 0''"
    by code_simp
  have d: "fst (maskPIIFromContent (\<lambda>ks. ks) ''10 10 0'' number_detector Map.empty)
     = Inr (''[NUM_[NUM_0001][NUM_0001][NUM_0001][NUM_0001]] '' @
            ''[NUM_[NUM_0001][NUM_0001][NUM_0001][NUM_0001]] [NUM_0001]'')"
    by code_simp
  have e: "fst (maskPIIFromContent rev ''10 10 0'' number_detector Map.empty)
     = Inr (''[NUM_[NUM_0001][NUM_0001][NUM_0001][NUM_0001]] '' @
            ''[NUM_[NUM_0001][NUM_0001][NUM_0001][NUM_0001]] [NUM_0001]'')"
    by code_simp
  have f: "\<not> sublist ''[NUM_0000]''
       (''[NUM_[NUM_0001][NUM_0001][NUM_0001][NUM_0001]] '' @
        ''[NUM_[NUM_0001][NUM_0001][NUM_0001][NUM_0001]] [NUM_0001]'')"
    by code_simp
  from a b c d e f show ?thesis by (intro conjI)
qed

section \<open>The response phase\<close>

text \<open>
  Claim C10. When the policy is in masking mode, the metadata entry under the fixed key
  is a string-to-string map and the response has a body, \<open>OnResponse\<close> applies
  \<open>restorePIIInResponse\<close> to the whole body, which replaces, entry after entry, every
  occurrence of the placeholder by the literal (\<open>ReplaceAll\<close> on the whole string); it
  returns the empty modification exactly when the restored string equals the body, and
  the restored string otherwise. When the entry is absent or is no string-to-string map
  it returns the empty modification. The result does not depend on the JSONPath (nor on
  the detectors) of the policy.
\<close>

theorem C10_response_phase_restores_whole_body:
  "(\<not> RedactPII params \<and> ResponseMetadata ctx MetadataKeyPIIEntities = Some (PIIMap maskedPIIMap) \<and>
      ResponseBody ctx = Some payload \<longrightarrow>
      OnResponse order params ctx =
        (if restorePIIInResponse payload (order maskedPIIMap) = payload
         then UpstreamResponseModifications None
         else UpstreamResponseModifications (Some (restorePIIInResponse payload (order maskedPIIMap)))) \<and>
      restorePIIInResponse payload (order maskedPIIMap) =
        foldl (\<lambda>transformedContent (original, placeholder).
                 ReplaceAll transformedContent placeholder original)
          payload (order maskedPIIMap)) \<and>
   (ResponseMetadata ctx MetadataKeyPIIEntities = None \<or>
      (\<exists>v. ResponseMetadata ctx MetadataKeyPIIEntities = Some (OtherValue v)) \<longrightarrow>
      OnResponse order params ctx = UpstreamResponseModifications None) \<and>
   OnResponse order (params\<lparr>JsonPath := jsonPath', PIIEntities := piiEntities'\<rparr>) ctx
     = OnResponse order params ctx"
  by (auto simp: OnResponse_def Let_def restore_is_sequential_ReplaceAll)

definition example_response_body :: string where
  "example_response_body = ''{id:[EMAIL_0000],text:mail [EMAIL_0000]}''"

theorem C10_response_phase_restores_whole_body_witness:
  "OnResponse (\<lambda>es. es)
     \<lparr>PIIEntities = builtin_email_phone, JsonPath = ''$.text'', RedactPII = False\<rparr>
     \<lparr>ResponseBody = Some example_response_body,
      ResponseMetadata = [MetadataKeyPIIEntities \<mapsto> PIIMap [(''a@b.cc'', ''[EMAIL_0000]'')]]\<rparr>
     = UpstreamResponseModifications (Some ''{id:a@b.cc,text:mail a@b.cc}'') \<and>
   OnResponse (\<lambda>es. es)
     \<lparr>PIIEntities = builtin_email_phone, JsonPath = ''$.text'', RedactPII = False\<rparr>
     \<lparr>ResponseBody = Some example_response_body,
      ResponseMetadata = [MetadataKeyPIIEntities \<mapsto> OtherValue ''42'']\<rparr>
     = UpstreamResponseModifications None \<and>
   OnResponse (\<lambda>es. es)
     \<lparr>PIIEntities = builtin_email_phone, JsonPath = ''$.text'', RedactPII = False\<rparr>
     \<lparr>ResponseBody = Some example_response_body, ResponseMetadata = Map.empty\<rparr>
     = UpstreamResponseModifications None"
proof -
  have r: "restorePIIInResponse example_response_body [(''a@b.cc'', ''[EMAIL_0000]'')]
            = ''{id:a@b.cc,text:mail a@b.cc}''"
    by code_simp
  have ne: "''{id:a@b.cc,text:mail a@b.cc}'' \<noteq> example_response_body"
    by (simp add: example_response_body_def)
  note t = C10_response_phase_restores_whole_body
    [where order = "\<lambda>es. es"
       and params = "\<lparr>PIIEntities = builtin_email_phone, JsonPath = ''$.text'', RedactPII = False\<rparr>"]
  have a: "OnResponse (\<lambda>es. es)
     \<lparr>PIIEntities = builtin_email_phone, JsonPath = ''$.text'', RedactPII = False\<rparr>
     \<lparr>ResponseBody = Some example_response_body,
      ResponseMetadata = [MetadataKeyPIIEntities \<mapsto> PIIMap [(''a@b.cc'', ''[EMAIL_0000]'')]]\<rparr>
     = UpstreamResponseModifications (Some ''{id:a@b.cc,text:mail a@b.cc}'')"
    using t [where ctx = "\<lparr>ResponseBody = Some example_response_body,
      ResponseMetadata = [MetadataKeyPIIEntities \<mapsto> PIIMap [(''a@b.cc'', ''[EMAIL_0000]'')]]\<rparr>"
      and maskedPIIMap = "[(''a@b.cc'', ''[EMAIL_0000]'')]" and payload = example_response_body]
      r ne
    by simp
  have b: "OnResponse (\<lambda>es. es)
     \<lparr>PIIEntities = builtin_email_phone, JsonPath = ''$.text'', RedactPII = False\<rparr>
     \<lparr>ResponseBody = Some example_response_body,
      ResponseMetadata = [MetadataKeyPIIEntities \<mapsto> OtherValue ''42'']\<rparr>
     = UpstreamResponseModifications None"
    using t [where ctx = "\<lparr>ResponseBody = Some example_response_body,
      ResponseMetadata = [MetadataKeyPIIEntities \<mapsto> OtherValue ''42'']\<rparr>"]
    by simp
  have c: "OnResponse (\<lambda>es. es)
     \<lparr>PIIEntities = builtin_email_phone, JsonPath = ''$.text'', RedactPII = False\<rparr>
     \<lparr>ResponseBody = Some example_response_body, ResponseMetadata = Map.empty\<rparr>
     = UpstreamResponseModifications None"
    using t [where ctx = "\<lparr>ResponseBody = Some example_response_body, ResponseMetadata = Map.empty\<rparr>"]
    by simp
  from a b c show ?thesis by (intro conjI)
qed

section \<open>Writing back\<close>

text \<open>
  What the request phase forwards when it forwards a body: the result of
  \<open>updatePayloadWithMaskedContent\<close> on a transformed text that is neither empty nor equal
  to the cleaned text.
\<close>

lemma OnRequest_body:
  assumes "fst (OnRequest lib order params ctx) = UpstreamRequestModifications (Some body)"
  shows "\<exists>payload extracted modifiedContent.
           Body ctx = Some payload \<and>
           ExtractStringValueFromJsonpath lib payload (JsonPath params) = Inr extracted \<and>
           (if RedactPII params
            then redactPIIFromContent (cleanAndTrim extracted) (PIIEntities params) = modifiedContent
            else fst (maskPIIFromContent order (cleanAndTrim extracted) (PIIEntities params) (Metadata ctx))
                   = Inr modifiedContent) \<and>
           modifiedContent \<noteq> [] \<and> modifiedContent \<noteq> cleanAndTrim extracted \<and>
           body = updatePayloadWithMaskedContent lib payload (cleanAndTrim extracted) modifiedContent
                    (JsonPath params)"
  using assms
  by (auto simp: OnRequest_def Let_def buildErrorResponse_def
           split: if_splits option.splits sum.splits prod.splits)

text \<open>
  Taken alone, \<open>updatePayloadWithMaskedContent\<close> with a non-empty JSONPath has three
  fallbacks: it returns the original payload when the value cannot be set at the path and
  when the updated object cannot be serialized, and the modified content alone when the
  payload cannot be parsed into a JSON object.
\<close>

lemma write_back_fallbacks:
  assumes "jsonPath \<noteq> []"
  shows "(Unmarshal lib originalPayload = Inr jsonData \<and>
            SetValueAtJSONPath lib jsonData jsonPath modifiedContent = Inl e \<longrightarrow>
            updatePayloadWithMaskedContent lib originalPayload extractedValue modifiedContent jsonPath
              = originalPayload) \<and>
         (Unmarshal lib originalPayload = Inr jsonData \<and>
            SetValueAtJSONPath lib jsonData jsonPath modifiedContent = Inr jsonData' \<and>
            Marshal lib jsonData' = Inl e \<longrightarrow>
            updatePayloadWithMaskedContent lib originalPayload extractedValue modifiedContent jsonPath
              = originalPayload) \<and>
         (Unmarshal lib originalPayload = Inl e \<longrightarrow>
            updatePayloadWithMaskedContent lib originalPayload extractedValue modifiedContent jsonPath
              = modifiedContent)"
  using assms by (simp add: updatePayloadWithMaskedContent_def)

text \<open>
  Claim C4. The path-query utility and the JSON codec are collaborators. Let the
  extraction be one that reads the payload by decoding it: when it returns a text for the
  JSONPath of the policy, \<open>json.Unmarshal\<close> of the same payload into a
  \<open>map[string]interface{}\<close> succeeds. Let the JSONPath be non-empty, so that the
  transformed text is written back into the payload. Then a payload that cannot be parsed
  is not forwarded at all: the extraction fails and the request phase answers with the
  error response, so the branch of \<open>updatePayloadWithMaskedContent\<close> that returns the
  modified content alone is not taken. And whenever the request phase forwards a body, the
  payload was parsed, and the body is the original payload when the value cannot be set
  at the path, the original payload when the updated object cannot be serialized, and
  the serialized updated object otherwise.
\<close>

theorem C4_failed_write_back_forwards_original_payload:
  assumes decodes: "\<And>text. ExtractStringValueFromJsonpath lib payload (JsonPath params) = Inr text
                      \<Longrightarrow> \<exists>jsonData. Unmarshal lib payload = Inr jsonData"
      and path: "JsonPath params \<noteq> []"
      and entities: "PIIEntities params \<noteq> []"
      and payload: "Body ctx = Some payload"
  shows "(\<forall>err. Unmarshal lib payload = Inl err \<longrightarrow>
            (\<exists>e. OnRequest lib order params ctx =
                   (buildErrorResponse (''error extracting value from JSONPath: '' @ errorText e),
                    Metadata ctx))) \<and>
         (\<forall>body. fst (OnRequest lib order params ctx) = UpstreamRequestModifications (Some body) \<longrightarrow>
            (\<exists>jsonData extracted modifiedContent.
               Unmarshal lib payload = Inr jsonData \<and>
               ExtractStringValueFromJsonpath lib payload (JsonPath params) = Inr extracted \<and>
               (if RedactPII params
                then redactPIIFromContent (cleanAndTrim extracted) (PIIEntities params)
                       = modifiedContent
                else fst (maskPIIFromContent order (cleanAndTrim extracted) (PIIEntities params)
                            (Metadata ctx)) = Inr modifiedContent) \<and>
               (case SetValueAtJSONPath lib jsonData (JsonPath params) modifiedContent of
                  Inl err \<Rightarrow> body = payload
                | Inr jsonData' \<Rightarrow>
                    (case Marshal lib jsonData' of
                       Inl err \<Rightarrow> body = payload
                     | Inr updatedPayload \<Rightarrow> body = updatedPayload))))"
proof (intro conjI allI impI)
  fix err
  assume u: "Unmarshal lib payload = Inl err"
  have "\<exists>e. ExtractStringValueFromJsonpath lib payload (JsonPath params) = Inl e"
  proof (cases "ExtractStringValueFromJsonpath lib payload (JsonPath params)")
    case (Inl e)
    then show ?thesis by simp
  next
    case (Inr extracted)
    then have "\<exists>jsonData. Unmarshal lib payload = Inr jsonData" by (rule decodes)
    with u show ?thesis by simp
  qed
  then obtain e where "ExtractStringValueFromJsonpath lib payload (JsonPath params) = Inl e" ..
  with entities payload
  have "OnRequest lib order params ctx =
          (buildErrorResponse (''error extracting value from JSONPath: '' @ errorText e),
           Metadata ctx)"
    by (simp add: OnRequest_def)
  then show "\<exists>e. OnRequest lib order params ctx =
                   (buildErrorResponse (''error extracting value from JSONPath: '' @ errorText e),
                    Metadata ctx)" ..
next
  fix body
  assume fwd: "fst (OnRequest lib order params ctx) = UpstreamRequestModifications (Some body)"
  from OnRequest_body [OF fwd] payload obtain extracted m where
    x: "ExtractStringValueFromJsonpath lib payload (JsonPath params) = Inr extracted"
    and m: "if RedactPII params
            then redactPIIFromContent (cleanAndTrim extracted) (PIIEntities params) = m
            else fst (maskPIIFromContent order (cleanAndTrim extracted) (PIIEntities params)
                        (Metadata ctx)) = Inr m"
    and body: "body = updatePayloadWithMaskedContent lib payload (cleanAndTrim extracted) m
                        (JsonPath params)"
    by auto
  from x have "\<exists>jsonData. Unmarshal lib payload = Inr jsonData" by (rule decodes)
  then obtain jsonData where u: "Unmarshal lib payload = Inr jsonData" ..
  from body u path
  have w: "case SetValueAtJSONPath lib jsonData (JsonPath params) m of
             Inl err \<Rightarrow> body = payload
           | Inr jsonData' \<Rightarrow>
               (case Marshal lib jsonData' of
                  Inl err \<Rightarrow> body = payload
                | Inr updatedPayload \<Rightarrow> body = updatedPayload)"
    by (simp add: updatePayloadWithMaskedContent_def split: sum.splits)
  from u x m w
  show "\<exists>jsonData extracted modifiedContent.
               Unmarshal lib payload = Inr jsonData \<and>
               ExtractStringValueFromJsonpath lib payload (JsonPath params) = Inr extracted \<and>
               (if RedactPII params
                then redactPIIFromContent (cleanAndTrim extracted) (PIIEntities params)
                       = modifiedContent
                else fst (maskPIIFromContent order (cleanAndTrim extracted) (PIIEntities params)
                            (Metadata ctx)) = Inr modifiedContent) \<and>
               (case SetValueAtJSONPath lib jsonData (JsonPath params) modifiedContent of
                  Inl err \<Rightarrow> body = payload
                | Inr jsonData' \<Rightarrow>
                    (case Marshal lib jsonData' of
                       Inl err \<Rightarrow> body = payload
                     | Inr updatedPayload \<Rightarrow> body = updatedPayload))"
    by blast
qed

text \<open>
  The payload \<open>{"text":"..."}\<close>, and a collaborator that knows the payload
  \<open>{"text":"jane@example.com"}\<close> and the path \<open>$.text\<close>: it decodes this payload
  to the value of its member and refuses every other payload, in \<open>json.Unmarshal\<close> and in
  the extraction alike; it sets the member and serializes the object.
\<close>

definition text_payload :: "string \<Rightarrow> string" where
  "text_payload v =
     ''{'' @ [CHR 0x22] @ ''text'' @ [CHR 0x22] @ '':'' @ [CHR 0x22] @ v @ [CHR 0x22] @ ''}''"

definition text_sdk :: "string sdk" where
  "text_sdk =
     \<lparr>ExtractStringValueFromJsonpath =
        (\<lambda>payload path. if payload = text_payload ''jane@example.com'' \<and> path = ''$.text''
                         then Inr ''jane@example.com''
                         else Inl (Error ''no string at the path'')),
      Unmarshal =
        (\<lambda>payload. if payload = text_payload ''jane@example.com''
                    then Inr ''jane@example.com''
                    else Inl (Error ''cannot unmarshal into Go value of type map'')),
      SetValueAtJSONPath =
        (\<lambda>jsonData path v. if path = ''$.text'' then Inr v else Inl (Error ''key not found'')),
      Marshal = (\<lambda>jsonData. Inr (text_payload jsonData))\<rparr>"

text \<open>
  The same collaborator with a utility that fails to set the value, and with a codec that
  fails to serialize: the two failures that the claim is about, which the code provides
  for.
\<close>

definition failing_set_sdk :: "string sdk" where
  "failing_set_sdk =
     text_sdk\<lparr>SetValueAtJSONPath := (\<lambda>jsonData path v. Inl (Error ''cannot set the value''))\<rparr>"

definition failing_marshal_sdk :: "string sdk" where
  "failing_marshal_sdk =
     text_sdk\<lparr>Marshal := (\<lambda>jsonData. Inl (Error ''json: unsupported value''))\<rparr>"

text \<open>The payload \<open>["jane@example.com"]\<close>, a JSON array.\<close>

definition array_payload :: string where
  "array_payload = ''['' @ [CHR 0x22] @ ''jane@example.com'' @ [CHR 0x22] @ '']''"

definition email_params :: PIIMaskingRegexPolicyParams where
  "email_params =
     \<lparr>PIIEntities = [(DefaultEmailEntityName, DefaultEmailRegex)], JsonPath = ''$.text'',
      RedactPII = False\<rparr>"

theorem C4_failed_write_back_forwards_original_payload_witness:
  "JsonPath email_params \<noteq> [] \<and> PIIEntities email_params \<noteq> [] \<and>
   ExtractStringValueFromJsonpath text_sdk (text_payload ''jane@example.com'') ''$.text''
     = Inr ''jane@example.com'' \<and>
   Unmarshal text_sdk (text_payload ''jane@example.com'') = Inr ''jane@example.com'' \<and>
   fst (OnRequest text_sdk (\<lambda>ks. ks) email_params
          \<lparr>Body = Some (text_payload ''jane@example.com''), Metadata = Map.empty\<rparr>)
     = UpstreamRequestModifications (Some (text_payload ''[EMAIL_0000]'')) \<and>
   SetValueAtJSONPath failing_set_sdk ''jane@example.com'' ''$.text'' ''[EMAIL_0000]''
     = Inl (Error ''cannot set the value'') \<and>
   fst (OnRequest failing_set_sdk (\<lambda>ks. ks) email_params
          \<lparr>Body = Some (text_payload ''jane@example.com''), Metadata = Map.empty\<rparr>)
     = UpstreamRequestModifications (Some (text_payload ''jane@example.com'')) \<and>
   SetValueAtJSONPath failing_marshal_sdk ''jane@example.com'' ''$.text'' ''[EMAIL_0000]''
     = Inr ''[EMAIL_0000]'' \<and>
   Marshal failing_marshal_sdk ''[EMAIL_0000]'' = Inl (Error ''json: unsupported value'') \<and>
   fst (OnRequest failing_marshal_sdk (\<lambda>ks. ks) email_params
          \<lparr>Body = Some (text_payload ''jane@example.com''), Metadata = Map.empty\<rparr>)
     = UpstreamRequestModifications (Some (text_payload ''jane@example.com'')) \<and>
   Unmarshal text_sdk array_payload = Inl (Error ''cannot unmarshal into Go value of type map'') \<and>
   OnRequest text_sdk (\<lambda>ks. ks) email_params \<lparr>Body = Some array_payload, Metadata = Map.empty\<rparr>
     = (buildErrorResponse (''error extracting value from JSONPath: no string at the path''),
        Map.empty)"
proof -
  let ?p = "text_payload ''jane@example.com''"
  let ?ctx = "\<lparr>Body = Some ?p, Metadata = Map.empty\<rparr>"
  let ?actx = "\<lparr>Body = Some array_payload, Metadata = Map.empty\<rparr>"
  have path: "JsonPath email_params \<noteq> []" and ents: "PIIEntities email_params \<noteq> []"
    and jp: "JsonPath email_params = ''$.text''"
    and pe: "PIIEntities email_params = [(DefaultEmailEntityName, DefaultEmailRegex)]"
    and nr: "\<not> RedactPII email_params"
    by (simp_all add: email_params_def)
  have dec: "\<forall>lib \<in> {text_sdk, failing_set_sdk, failing_marshal_sdk}.
      \<forall>payload text. ExtractStringValueFromJsonpath lib payload (JsonPath email_params) = Inr text
         \<longrightarrow> Unmarshal lib payload = Inr ''jane@example.com''"
    by (simp add: text_sdk_def failing_set_sdk_def failing_marshal_sdk_def)
  have ap: "array_payload \<noteq> ?p" by (simp add: array_payload_def text_payload_def)
  have m: "fst (maskPIIFromContent (\<lambda>ks. ks) (cleanAndTrim ''jane@example.com'')
                  [(DefaultEmailEntityName, DefaultEmailRegex)] Map.empty) = Inr ''[EMAIL_0000]''"
    by code_simp
  note t1 = C4_failed_write_back_forwards_original_payload
    [where lib = text_sdk and params = email_params and ctx = ?ctx and payload = ?p
       and order = "\<lambda>ks. ks", OF _ path ents]
  note t2 = C4_failed_write_back_forwards_original_payload
    [where lib = failing_set_sdk and params = email_params and ctx = ?ctx and payload = ?p
       and order = "\<lambda>ks. ks", OF _ path ents]
  note t3 = C4_failed_write_back_forwards_original_payload
    [where lib = failing_marshal_sdk and params = email_params and ctx = ?ctx and payload = ?p
       and order = "\<lambda>ks. ks", OF _ path ents]
  note t4 = C4_failed_write_back_forwards_original_payload
    [where lib = text_sdk and params = email_params and ctx = ?actx and payload = array_payload
       and order = "\<lambda>ks. ks", OF _ path ents]
  have x: "ExtractStringValueFromJsonpath lib ?p ''$.text'' = Inr ''jane@example.com''"
    if "lib \<in> {text_sdk, failing_set_sdk, failing_marshal_sdk}" for lib
    using that by (auto simp: text_sdk_def failing_set_sdk_def failing_marshal_sdk_def)
  have u: "Unmarshal lib ?p = Inr ''jane@example.com''"
    if "lib \<in> {text_sdk, failing_set_sdk, failing_marshal_sdk}" for lib
    using that by (auto simp: text_sdk_def failing_set_sdk_def failing_marshal_sdk_def)
  have run: "fst (OnRequest lib (\<lambda>ks. ks) email_params ?ctx)
      = UpstreamRequestModifications
          (Some (updatePayloadWithMaskedContent lib ?p ''jane@example.com'' ''[EMAIL_0000]'' ''$.text''))"
    if "lib \<in> {text_sdk, failing_set_sdk, failing_marshal_sdk}" for lib
  proof -
    have c: "cleanAndTrim ''jane@example.com'' = ''jane@example.com''" by code_simp
    obtain md where "maskPIIFromContent (\<lambda>ks. ks) ''jane@example.com''
        [(DefaultEmailEntityName, DefaultEmailRegex)] Map.empty = (Inr ''[EMAIL_0000]'', md)"
      using m unfolding c by (metis prod.collapse)
    then show ?thesis
      by (simp add: OnRequest_def Let_def ents jp pe nr x [OF that] c)
  qed
  have s2: "SetValueAtJSONPath failing_set_sdk ''jane@example.com'' ''$.text'' ''[EMAIL_0000]''
     = Inl (Error ''cannot set the value'')"
    by (simp add: failing_set_sdk_def)
  have s3: "SetValueAtJSONPath failing_marshal_sdk ''jane@example.com'' ''$.text'' ''[EMAIL_0000]''
     = Inr ''[EMAIL_0000]''"
    by (simp add: failing_marshal_sdk_def text_sdk_def)
  have m3: "Marshal failing_marshal_sdk ''[EMAIL_0000]'' = Inl (Error ''json: unsupported value'')"
    by (simp add: failing_marshal_sdk_def)
  have s1: "SetValueAtJSONPath text_sdk ''jane@example.com'' ''$.text'' ''[EMAIL_0000]''
     = Inr ''[EMAIL_0000]''"
    by (simp add: text_sdk_def)
  have m1: "Marshal text_sdk ''[EMAIL_0000]'' = Inr (text_payload ''[EMAIL_0000]'')"
    by (simp add: text_sdk_def)
  have u4: "Unmarshal text_sdk array_payload
              = Inl (Error ''cannot unmarshal into Go value of type map'')"
    using ap by (simp add: text_sdk_def)
  have x4: "ExtractStringValueFromJsonpath text_sdk array_payload ''$.text''
              = Inl (Error ''no string at the path'')"
    using ap by (simp add: text_sdk_def)
  have r1: "fst (OnRequest text_sdk (\<lambda>ks. ks) email_params ?ctx)
     = UpstreamRequestModifications (Some (text_payload ''[EMAIL_0000]''))"
    using t1 dec run [of text_sdk] u [of text_sdk] x [of text_sdk] s1 m1 m jp pe nr
    by (auto split: sum.splits)
  have r2: "fst (OnRequest failing_set_sdk (\<lambda>ks. ks) email_params ?ctx)
     = UpstreamRequestModifications (Some ?p)"
    using t2 dec run [of failing_set_sdk] u [of failing_set_sdk] x [of failing_set_sdk] s2 m jp pe nr
    by (auto split: sum.splits)
  have r3: "fst (OnRequest failing_marshal_sdk (\<lambda>ks. ks) email_params ?ctx)
     = UpstreamRequestModifications (Some ?p)"
    using t3 dec run [of failing_marshal_sdk] u [of failing_marshal_sdk] x [of failing_marshal_sdk]
      s3 m3 m jp pe nr
    by (auto split: sum.splits)
  have r4: "OnRequest text_sdk (\<lambda>ks. ks) email_params ?actx
     = (buildErrorResponse (''error extracting value from JSONPath: no string at the path''),
        Map.empty)"
    using t4 dec u4 x4 jp by (auto simp: OnRequest_def ents errorText_def)
  from path ents x [of text_sdk] u [of text_sdk] r1 s2 r2 s3 m3 r3 u4 r4
  show ?thesis by simp
qed

section \<open>Cleaning the extracted text\<close>

lemma ends_TextCleanRegex:
  "ends TextCleanRegex s i =
     (if i = 0 \<and> 0 < length s \<and> s ! 0 = CHR 0x22 then [1] else []) @
     (if i < length s \<and> s ! i = CHR 0x22 \<and> Suc i = length s then [Suc i] else [])"
  by (cases "i = 0") (simp_all add: TextCleanRegex_def Chr_def ends.simps in_class_single)


text \<open>
  What the claim says the cleaning pattern does, in its words: strip one leading and one
  trailing double quote. It is compared below with \<open>ReplaceAllString\<close> of the pattern
  \<open>^"|"$\<close> and the empty replacement, which is what the code calls.
\<close>

definition stripOneQuoteEachEnd :: "string \<Rightarrow> string" where
  "stripOneQuoteEachEnd s =
     (let s1 = (case s of [] \<Rightarrow> [] | c # cs \<Rightarrow> if c = CHR 0x22 then cs else s)
      in if s1 \<noteq> [] \<and> last s1 = CHR 0x22 then butlast s1 else s1)"

lemma replaceAll_past_end:
  assumes "length s \<le> pos"
  shows "replaceAll TextCleanRegex s repl pos l = drop l s"
proof -
  have "find_from TextCleanRegex s pos = None"
  proof (rule find_from_none)
    fix i assume "pos \<le> i" "i \<le> length s"
    with assms have "i = length s" by simp
    then show "ends TextCleanRegex s i = []" by (simp add: ends_TextCleanRegex)
  qed
  then show ?thesis by (simp add: replaceAll.simps [of _ s repl pos l])
qed

lemma find_trailing_quote:
  assumes pos: "pos \<le> length s" and lead: "0 < pos \<or> s = [] \<or> s ! 0 \<noteq> CHR 0x22"
  shows "find_from TextCleanRegex s pos =
           (if pos < length s \<and> last s = CHR 0x22 then Some (length s - 1, length s) else None)"
proof (cases "pos < length s \<and> last s = CHR 0x22")
  case True
  then have ne: "s \<noteq> []" by auto
  with True have lastq: "s ! (length s - 1) = CHR 0x22" by (simp add: last_conv_nth)
  have "find_from TextCleanRegex s pos = Some (length s - 1, length s)"
  proof (rule find_from_first)
    show "pos \<le> length s - 1" using True by auto
    show "length s - 1 \<le> length s" by simp
    show "ends TextCleanRegex s i = []" if "pos \<le> i" "i < length s - 1" for i
      using that lead by (auto simp: ends_TextCleanRegex)
    show "ends TextCleanRegex s (length s - 1) = length s # []"
      using True ne lastq lead by (auto simp: ends_TextCleanRegex)
  qed
  with True show ?thesis by simp
next
  case False
  have "find_from TextCleanRegex s pos = None"
  proof (rule find_from_none)
    fix i assume i: "pos \<le> i" "i \<le> length s"
    show "ends TextCleanRegex s i = []"
    proof (cases "i < length s \<and> Suc i = length s")
      case True
      with i False have "last s \<noteq> CHR 0x22" by auto
      moreover from True have "last s = s ! i"
        by (metis diff_Suc_1 last_conv_nth length_0_conv not_less_zero)
      ultimately show ?thesis using i lead by (auto simp: ends_TextCleanRegex)
    next
      case False
      then show ?thesis using i lead by (auto simp: ends_TextCleanRegex)
    qed
  qed
  with False show ?thesis by simp
qed

lemma rune_width_quote: "rune_width (CHR 0x22 # cs) = 1"
  by (simp add: rune_width_def utf8_first_def byte_def)

lemma ReplaceAllString_TextCleanRegex:
  "ReplaceAllString TextCleanRegex s [] = stripOneQuoteEachEnd s"
proof (cases s)
  case Nil
  then show ?thesis
    by (simp add: ReplaceAllString_def replaceAll_past_end stripOneQuoteEachEnd_def)
next
  case (Cons c cs)
  let ?n = "length s"
  have tail: "replaceAll TextCleanRegex s [] pos ?n = []" if "?n \<le> pos" for pos
    using that by (simp add: replaceAll_past_end)
  show ?thesis
  proof (cases "c = CHR 0x22")
    case True
    with Cons have f0: "find_from TextCleanRegex s 0 = Some (0, 1)"
      by (intro find_from_hit) (auto simp: ends_TextCleanRegex)
    have w: "rune_width s = 1" using Cons True by (simp add: rune_width_quote)
    have step0: "replaceAll TextCleanRegex s [] 0 0 = replaceAll TextCleanRegex s [] 1 1"
      by (subst replaceAll.simps) (simp add: f0 w)
    have f1: "find_from TextCleanRegex s 1 =
           (if 1 < ?n \<and> last s = CHR 0x22 then Some (?n - 1, ?n) else None)"
      using Cons by (intro find_trailing_quote) auto
    show ?thesis
    proof (cases "1 < ?n \<and> last s = CHR 0x22")
      case False
      with f1 have "replaceAll TextCleanRegex s [] 1 1 = drop 1 s"
        by (subst replaceAll.simps) simp
      moreover from False Cons True have "stripOneQuoteEachEnd s = cs"
        by (auto simp: stripOneQuoteEachEnd_def)
      ultimately show ?thesis using step0 Cons by (simp add: ReplaceAllString_def)
    next
      case t: True
      let ?sp = "if ?n < 1 + rune_width (drop 1 s) then 1 + rune_width (drop 1 s)
                 else if ?n < 1 + 1 then 1 + 1 else ?n"
      have sp: "?n \<le> ?sp" by simp
      from Cons have ne: "s \<noteq> []" by simp
      from f1 t ne have "replaceAll TextCleanRegex s [] 1 1 =
          take (?n - 1 - 1) (drop 1 s) @ replaceAll TextCleanRegex s [] ?sp ?n"
        by (subst replaceAll.simps) (simp add: Let_def)
      also have "\<dots> = take (?n - 1 - 1) (drop 1 s)" using tail [OF sp] by simp
      also have "\<dots> = butlast cs" using Cons by (simp add: butlast_conv_take)
      finally have "replaceAll TextCleanRegex s [] 1 1 = butlast cs" .
      moreover from t Cons True have "stripOneQuoteEachEnd s = butlast cs"
        by (auto simp: stripOneQuoteEachEnd_def)
      ultimately show ?thesis using step0 by (simp add: ReplaceAllString_def)
    qed
  next
    case False
    have f0: "find_from TextCleanRegex s 0 =
           (if 0 < ?n \<and> last s = CHR 0x22 then Some (?n - 1, ?n) else None)"
      using Cons False by (intro find_trailing_quote) auto
    show ?thesis
    proof (cases "last s = CHR 0x22")
      case f: False
      with f0 have "replaceAll TextCleanRegex s [] 0 0 = s"
        by (subst replaceAll.simps) simp
      moreover from f Cons False have "stripOneQuoteEachEnd s = s"
        by (auto simp: stripOneQuoteEachEnd_def)
      ultimately show ?thesis by (simp add: ReplaceAllString_def)
    next
      case t: True
      let ?sp = "if ?n < 0 + rune_width (drop 0 s) then 0 + rune_width (drop 0 s)
                 else if ?n < 0 + 1 then 0 + 1 else ?n"
      have sp: "?n \<le> ?sp" by simp
      from Cons have ne: "s \<noteq> []" by simp
      from f0 t ne have "replaceAll TextCleanRegex s [] 0 0 =
          take (?n - 1 - 0) (drop 0 s) @ replaceAll TextCleanRegex s [] ?sp ?n"
        by (subst replaceAll.simps) (simp add: Let_def)
      also have "\<dots> = take (?n - 1) s" using tail [OF sp] by simp
      also have "\<dots> = butlast s" by (simp add: butlast_conv_take)
      finally have "replaceAll TextCleanRegex s [] 0 0 = butlast s" .
      moreover from t Cons False have "stripOneQuoteEachEnd s = butlast s"
        by (auto simp: stripOneQuoteEachEnd_def)
      ultimately show ?thesis by (simp add: ReplaceAllString_def)
    qed
  qed
qed

lemma unicode_spaces_nonempty: "w \<in> set unicode_spaces \<Longrightarrow> w \<noteq> []"
  by (auto simp: unicode_spaces_def)

lemma trimLeft_no_space: "w \<in> set unicode_spaces \<Longrightarrow> \<not> prefix w (trimLeft s)"
proof (induction s rule: trimLeft.induct)
  case (1 s)
  show ?case
  proof (cases "find (\<lambda>w. prefix w s) unicode_spaces")
    case None
    with "1.prems" have "\<not> prefix w s" by (auto simp: find_None_iff)
    with None show ?thesis by (simp add: trimLeft.simps [of s])
  next
    case (Some v)
    then have "v \<in> set unicode_spaces" by (auto simp: find_Some_iff)
    then have ne: "v \<noteq> []" by (rule unicode_spaces_nonempty)
    with 1 Some have "\<not> prefix w (trimLeft (drop (length v) s))" by simp
    with Some ne show ?thesis by (simp add: trimLeft.simps [of s])
  qed
qed

lemma trimRight_prefix: "prefix (trimRight s) s"
proof (induction s rule: trimRight.induct)
  case (1 s)
  show ?case
  proof (cases "find (\<lambda>w. suffix w s) unicode_spaces")
    case None
    then show ?thesis by (simp add: trimRight.simps [of s])
  next
    case (Some w)
    then have "w \<in> set unicode_spaces" by (auto simp: find_Some_iff)
    then have ne: "w \<noteq> []" by (rule unicode_spaces_nonempty)
    with 1 Some have "prefix (trimRight (take (length s - length w) s)) (take (length s - length w) s)"
      by simp
    then have "prefix (trimRight (take (length s - length w) s)) s"
      by (meson prefix_order.trans take_is_prefix)
    with Some ne show ?thesis by (simp add: trimRight.simps [of s])
  qed
qed

lemma trimRight_no_space: "w \<in> set unicode_spaces \<Longrightarrow> \<not> suffix w (trimRight s)"
proof (induction s rule: trimRight.induct)
  case (1 s)
  show ?case
  proof (cases "find (\<lambda>w. suffix w s) unicode_spaces")
    case None
    with "1.prems" have "\<not> suffix w s" by (auto simp: find_None_iff)
    with None show ?thesis by (simp add: trimRight.simps [of s])
  next
    case (Some v)
    then have "v \<in> set unicode_spaces" by (auto simp: find_Some_iff)
    then have ne: "v \<noteq> []" by (rule unicode_spaces_nonempty)
    with 1 Some have "\<not> suffix w (trimRight (take (length s - length v) s))" by simp
    with Some ne show ?thesis by (simp add: trimRight.simps [of s])
  qed
qed

lemma TrimSpace_no_space:
  assumes "w \<in> set unicode_spaces"
  shows "\<not> prefix w (TrimSpace s) \<and> \<not> suffix w (TrimSpace s)"
proof -
  have "\<not> prefix w (trimRight (trimLeft s))"
  proof
    assume "prefix w (trimRight (trimLeft s))"
    then have "prefix w (trimLeft s)"
      using trimRight_prefix [of "trimLeft s"] by (rule prefix_order.trans)
    with assms show False by (simp add: trimLeft_no_space)
  qed
  with assms show ?thesis by (simp add: TrimSpace_def trimRight_no_space)
qed

text \<open>
  Claim C9. When the text at the JSONPath has been extracted, the request phase first
  strips one leading and one trailing double quote and then trims the white space around
  the result (the cleaned text neither starts nor ends with a white-space character),
  before any detection runs. Detection, in redaction mode as in masking mode, reads the
  cleaned text; when it reports a modification, the value handed to write-back, and set
  at the JSONPath of the payload, is the cleaned text with the substitutions applied, so
  the quotes and the white space stripped from the extracted value are not in the
  transformed payload.
\<close>

theorem C9_request_phase_cleans_before_detection:
  assumes "PIIEntities params \<noteq> []"
      and "Body ctx = Some payload"
      and "ExtractStringValueFromJsonpath lib payload (JsonPath params) = Inr extracted"
  shows "cleanAndTrim extracted = TrimSpace (stripOneQuoteEachEnd extracted) \<and>
         (\<forall>w\<in>set unicode_spaces.
            \<not> prefix w (cleanAndTrim extracted) \<and> \<not> suffix w (cleanAndTrim extracted)) \<and>
         (RedactPII params \<and>
            redactPIIFromContent (cleanAndTrim extracted) (PIIEntities params) = modifiedContent \<and>
            modifiedContent \<noteq> [] \<and> modifiedContent \<noteq> cleanAndTrim extracted \<longrightarrow>
            OnRequest lib order params ctx =
              (UpstreamRequestModifications
                 (Some (updatePayloadWithMaskedContent lib payload (cleanAndTrim extracted)
                          modifiedContent (JsonPath params))),
               Metadata ctx)) \<and>
         (\<not> RedactPII params \<and>
            maskPIIFromContent order (cleanAndTrim extracted) (PIIEntities params) (Metadata ctx)
              = (Inr modifiedContent, metadata') \<and>
            modifiedContent \<noteq> [] \<and> modifiedContent \<noteq> cleanAndTrim extracted \<longrightarrow>
            OnRequest lib order params ctx =
              (UpstreamRequestModifications
                 (Some (updatePayloadWithMaskedContent lib payload (cleanAndTrim extracted)
                          modifiedContent (JsonPath params))),
               metadata')) \<and>
         (JsonPath params \<noteq> [] \<and> Unmarshal lib payload = Inr jsonData \<and>
            SetValueAtJSONPath lib jsonData (JsonPath params) modifiedContent = Inr jsonData' \<and>
            Marshal lib jsonData' = Inr updatedPayload \<longrightarrow>
            updatePayloadWithMaskedContent lib payload (cleanAndTrim extracted) modifiedContent
              (JsonPath params) = updatedPayload)"
proof -
  have a: "cleanAndTrim extracted = TrimSpace (stripOneQuoteEachEnd extracted)"
    by (simp add: cleanAndTrim_def ReplaceAllString_TextCleanRegex)
  have b: "\<forall>w\<in>set unicode_spaces.
            \<not> prefix w (cleanAndTrim extracted) \<and> \<not> suffix w (cleanAndTrim extracted)"
    unfolding cleanAndTrim_def using TrimSpace_no_space by blast
  have c: "OnRequest lib order params ctx =
              (UpstreamRequestModifications
                 (Some (updatePayloadWithMaskedContent lib payload (cleanAndTrim extracted)
                          modifiedContent (JsonPath params))),
               Metadata ctx)"
    if "RedactPII params"
       "redactPIIFromContent (cleanAndTrim extracted) (PIIEntities params) = modifiedContent"
       "modifiedContent \<noteq> []" "modifiedContent \<noteq> cleanAndTrim extracted"
    using that assms by (simp add: OnRequest_def Let_def)
  have d: "OnRequest lib order params ctx =
              (UpstreamRequestModifications
                 (Some (updatePayloadWithMaskedContent lib payload (cleanAndTrim extracted)
                          modifiedContent (JsonPath params))),
               metadata')"
    if "\<not> RedactPII params"
       "maskPIIFromContent order (cleanAndTrim extracted) (PIIEntities params) (Metadata ctx)
              = (Inr modifiedContent, metadata')"
       "modifiedContent \<noteq> []" "modifiedContent \<noteq> cleanAndTrim extracted"
    using that assms by (simp add: OnRequest_def Let_def)
  have e: "updatePayloadWithMaskedContent lib payload (cleanAndTrim extracted) modifiedContent
              (JsonPath params) = updatedPayload"
    if "JsonPath params \<noteq> []" "Unmarshal lib payload = Inr jsonData"
       "SetValueAtJSONPath lib jsonData (JsonPath params) modifiedContent = Inr jsonData'"
       "Marshal lib jsonData' = Inr updatedPayload"
    using that by (simp add: updatePayloadWithMaskedContent_def)
  from a b c d e show ?thesis by blast
qed


text \<open>
  The extracted value \<open>"  jane@example.com "\<close>, quotes included, and a collaborator
  that shows the value set at the path between angle brackets.
\<close>

definition quoted_payload :: string where
  "quoted_payload = [CHR 0x22] @ ''  jane@example.com '' @ [CHR 0x22]"

definition echo_sdk :: "string sdk" where
  "echo_sdk =
     \<lparr>ExtractStringValueFromJsonpath = (\<lambda>payload path. Inr payload),
      Unmarshal = (\<lambda>payload. Inr payload),
      SetValueAtJSONPath = (\<lambda>jsonData path v. Inr v),
      Marshal = (\<lambda>jsonData. Inr (''<'' @ jsonData @ ''>''))\<rparr>"

definition email_policy :: PIIMaskingRegexPolicyParams where
  "email_policy =
     \<lparr>PIIEntities = [(DefaultEmailEntityName, DefaultEmailRegex)], JsonPath = ''$'',
      RedactPII = False\<rparr>"

theorem C9_request_phase_cleans_before_detection_witness:
  "PIIEntities email_policy \<noteq> [] \<and>
   Body \<lparr>Body = Some quoted_payload, Metadata = Map.empty\<rparr> = Some quoted_payload \<and>
   ExtractStringValueFromJsonpath echo_sdk quoted_payload (JsonPath email_policy) = Inr quoted_payload \<and>
   stripOneQuoteEachEnd quoted_payload = ''  jane@example.com '' \<and>
   cleanAndTrim quoted_payload = ''jane@example.com'' \<and>
   fst (maskPIIFromContent (\<lambda>ks. ks) ''jane@example.com'' (PIIEntities email_policy) Map.empty)
     = Inr ''[EMAIL_0000]'' \<and>
   fst (OnRequest echo_sdk (\<lambda>ks. ks) email_policy \<lparr>Body = Some quoted_payload, Metadata = Map.empty\<rparr>)
     = UpstreamRequestModifications (Some ''<[EMAIL_0000]>'')"
proof -
  let ?ctx = "\<lparr>Body = Some quoted_payload, Metadata = Map.empty\<rparr>"
  have h1: "PIIEntities email_policy \<noteq> []" by (simp add: email_policy_def)
  have h2: "Body ?ctx = Some quoted_payload" by simp
  have h3: "ExtractStringValueFromJsonpath echo_sdk quoted_payload (JsonPath email_policy)
              = Inr quoted_payload"
    by (simp add: echo_sdk_def)
  have s: "stripOneQuoteEachEnd quoted_payload = ''  jane@example.com ''"
    by (simp add: stripOneQuoteEachEnd_def quoted_payload_def)
  have c: "cleanAndTrim quoted_payload = ''jane@example.com''"
    by code_simp
  have m: "fst (maskPIIFromContent (\<lambda>ks. ks) ''jane@example.com'' (PIIEntities email_policy) Map.empty)
     = Inr ''[EMAIL_0000]''"
    by code_simp
  then have m': "maskPIIFromContent (\<lambda>ks. ks) (cleanAndTrim quoted_payload) (PIIEntities email_policy)
                   (Metadata ?ctx)
     = (Inr ''[EMAIL_0000]'',
        snd (maskPIIFromContent (\<lambda>ks. ks) ''jane@example.com'' (PIIEntities email_policy) Map.empty))"
    by (simp add: c prod_eq_iff)
  have u: "updatePayloadWithMaskedContent echo_sdk quoted_payload ''jane@example.com'' ''[EMAIL_0000]''
             (JsonPath email_policy) = ''<[EMAIL_0000]>''"
    by (simp add: updatePayloadWithMaskedContent_def echo_sdk_def email_policy_def)
  have r: "\<not> RedactPII email_policy" by (simp add: email_policy_def)
  note t = C9_request_phase_cleans_before_detection [OF h1 h2 h3,
      where order = "\<lambda>ks. ks" and modifiedContent = "''[EMAIL_0000]''"
        and metadata' = "snd (maskPIIFromContent (\<lambda>ks. ks) ''jane@example.com''
                               (PIIEntities email_policy) Map.empty)"]
  from t r m' c u have "fst (OnRequest echo_sdk (\<lambda>ks. ks) email_policy ?ctx)
     = UpstreamRequestModifications (Some ''<[EMAIL_0000]>'')"
    by simp
  with h1 h2 h3 s c m show ?thesis by (intro conjI)
qed

section \<open>The round trip\<close>

subsection \<open>Scanning replacement\<close>

lemma replaceEach_skip:
  "(\<And>k. k < length x \<Longrightarrow> \<not> prefix old (drop k x @ r)) \<Longrightarrow>
   replaceEach old new (x @ r) = x @ replaceEach old new r"
proof (induction x)
  case Nil
  then show ?case by simp
next
  case (Cons c x)
  from Cons.prems [of 0] have "\<not> prefix old (c # x @ r)" by simp
  moreover have "replaceEach old new (x @ r) = x @ replaceEach old new r"
  proof (rule Cons.IH)
    fix k assume "k < length x"
    with Cons.prems [of "Suc k"] show "\<not> prefix old (drop k x @ r)" by simp
  qed
  ultimately show ?case by simp
qed

lemma replaceEach_hit:
  "old \<noteq> [] \<Longrightarrow> replaceEach old new (old @ r) = new @ replaceEach old new r"
  by (cases old) simp_all

lemma replaceEach_same: "replaceEach old old s = s"
proof (induction "length s" arbitrary: s rule: less_induct)
  case less
  show ?case
  proof (cases s)
    case Nil
    then show ?thesis by simp
  next
    case (Cons c cs)
    show ?thesis
    proof (cases "old \<noteq> [] \<and> prefix old (c # cs)")
      case True
      then obtain r where r: "c # cs = old @ r" by (auto simp: prefix_def)
      with True Cons have "length r < length s" by simp
      then have "replaceEach old old r = r" by (rule less)
      with True r Cons show ?thesis by (simp add: replaceEach_hit)
    next
      case False
      have "length cs < length s" using Cons by simp
      then have "replaceEach old old cs = cs" by (rule less)
      with False Cons show ?thesis by auto
    qed
  qed
qed

lemma ReplaceAll_nonempty_old: "old \<noteq> [] \<Longrightarrow> ReplaceAll s old new = replaceEach old new s"
  by (simp add: ReplaceAll_def replaceEach_same)

subsection \<open>Texts with placeholders in them\<close>

text \<open>
  \<open>masks E c s\<close>: the text \<open>s\<close> is the text \<open>c\<close> in which some non-overlapping occurrences
  of literals have been replaced by their placeholders, with (literal, placeholder) pairs
  from \<open>E\<close>, and nothing else has changed.
\<close>

inductive masks :: "(string \<times> string) set \<Rightarrow> string \<Rightarrow> string \<Rightarrow> bool" for E where
  masks_Nil: "masks E [] []"
| masks_Char: "masks E a b \<Longrightarrow> masks E (c # a) (c # b)"
| masks_Tok: "(l, p) \<in> E \<Longrightarrow> masks E a b \<Longrightarrow> masks E (l @ a) (p @ b)"

lemma masks_refl: "masks E c c"
  by (induction c) (auto intro: masks.intros)

lemma masks_same_prefix: "masks E a b \<Longrightarrow> masks E (u @ a) (u @ b)"
  by (induction u) (auto intro: masks.intros)

lemma masks_empty: "masks {} c s \<Longrightarrow> s = c"
  by (induction rule: masks.induct) auto

text \<open>A text free of \<open>[\<close> that the masked text starts with is copied from the original.\<close>

lemma masks_plain_prefix:
  assumes "masks E a b" "prefix u b" "CHR ''['' \<notin> set u"
      and "\<And>l p. (l, p) \<in> E \<Longrightarrow> p \<noteq> [] \<and> hd p = CHR ''[''"
  shows "prefix u a \<and> masks E (drop (length u) a) (drop (length u) b)"
  using assms(1-3)
proof (induction u arbitrary: a b)
  case Nil
  then show ?case by simp
next
  case (Cons x u)
  from Cons.prems(2) obtain b' where b: "b = x # b'" and pu: "prefix u b'"
    by (cases b) auto
  from Cons.prems(3) have x: "x \<noteq> CHR ''[''" and u: "CHR ''['' \<notin> set u" by auto
  from Cons.prems(1) show ?case
  proof (cases rule: masks.cases)
    case masks_Nil
    with b show ?thesis by simp
  next
    case (masks_Char a0 b0 c)
    with b have "c = x" "b0 = b'" by auto
    with masks_Char Cons.IH [of a0 b'] pu u b show ?thesis by auto
  next
    case (masks_Tok l p a0 b0)
    with assms(4) have "p \<noteq> []" "hd p = CHR ''[''" by auto
    with masks_Tok b have "x = CHR ''[''" by (cases p) auto
    with x show ?thesis by simp
  qed
qed

text \<open>
  A bracketed string starts with \<open>[\<close>, ends with \<open>]\<close> and has no bracket in between. Two
  occurrences of bracketed strings in a text never overlap.
\<close>

definition bracketed :: "string \<Rightarrow> bool" where
  "bracketed p \<longleftrightarrow>
     (\<exists>w. p = CHR ''['' # w @ '']'' \<and> CHR ''['' \<notin> set w \<and> CHR '']'' \<notin> set w)"

lemma takeWhile_upto: "a \<notin> set vs \<Longrightarrow> takeWhile (\<lambda>x. x \<noteq> a) (vs @ a # us) = vs"
  by (induction vs) auto

lemma first_separator:
  assumes "vs @ a # us = ws @ a # zs" "a \<notin> set vs" "a \<notin> set ws"
  shows "vs = ws"
proof -
  from assms(1) have "takeWhile (\<lambda>x. x \<noteq> a) (vs @ a # us) = takeWhile (\<lambda>x. x \<noteq> a) (ws @ a # zs)"
    by simp
  with assms(2,3) show ?thesis by (simp add: takeWhile_upto)
qed

lemma bracketed_nonempty: "bracketed p \<Longrightarrow> p \<noteq> [] \<and> hd p = CHR ''['' \<and> last p = CHR '']''"
  by (auto simp: bracketed_def)

lemma bracketed_no_overlap:
  assumes p: "bracketed p" and P: "bracketed P" and k: "k < length p"
      and pre: "prefix P (drop k p @ b)"
  shows "k = 0 \<and> P = p"
proof -
  from p obtain w where w: "p = CHR ''['' # w @ '']''" "CHR ''['' \<notin> set w" "CHR '']'' \<notin> set w"
    by (auto simp: bracketed_def)
  from P obtain v where v: "P = CHR ''['' # v @ '']''" "CHR ''['' \<notin> set v" "CHR '']'' \<notin> set v"
    by (auto simp: bracketed_def)
  have k0: "k = 0"
  proof (rule ccontr)
    assume "k \<noteq> 0"
    then obtain j where j: "k = Suc j" by (cases k) auto
    with k w have jl: "j < length (w @ '']'')" by simp
    define d where "d = drop j (w @ '']'')"
    from jl have "d \<noteq> []" by (simp add: d_def)
    then obtain y ys where d: "d = y # ys" by (cases d) auto
    from jl have "hd d = (w @ '']'') ! j" unfolding d_def by (rule hd_drop_conv_nth)
    moreover from jl have "(w @ '']'') ! j \<in> set (w @ '']'')" by (rule nth_mem)
    ultimately have "y \<noteq> CHR ''[''" using w d by auto
    moreover from j w have "drop k p = d" by (simp add: d_def)
    with pre v d have "y = CHR ''[''" by simp
    ultimately show False by simp
  qed
  with pre w v have "prefix (v @ '']'') (w @ '']'' @ b)" by simp
  then obtain z where "w @ CHR '']'' # b = v @ CHR '']'' # z"
    by (auto simp: prefix_def)
  with w v have "w = v" by (intro first_separator [of w "CHR '']''" b v z]) auto
  with k0 w v show ?thesis by simp
qed

text \<open>
  One substitution of the second pass, for a literal without brackets that is inside no
  placeholder already inserted, and one replacement of the restoration, for a placeholder
  that the original text does not contain.
\<close>

lemma masks_forward:
  assumes "masks E c s" and L: "L \<noteq> []" "CHR ''['' \<notin> set L" "CHR '']'' \<notin> set L"
      and E: "\<And>l p. (l, p) \<in> E \<Longrightarrow> bracketed p \<and> \<not> sublist L p"
  shows "masks (insert (L, P) E) c (replaceEach L P s)"
  using assms(1)
proof (induction "length s" arbitrary: c s rule: less_induct)
  case less
  let ?E = "insert (L, P) E"
  have starts: "\<And>l p. (l, p) \<in> E \<Longrightarrow> p \<noteq> [] \<and> hd p = CHR ''[''"
    using E bracketed_nonempty by blast
  from less.prems show ?case
  proof (cases rule: masks.cases)
    case masks_Nil
    then show ?thesis by (simp add: masks.masks_Nil)
  next
    case (masks_Char a0 b0 x)
    show ?thesis
    proof (cases "prefix L s")
      case True
      with less.prems L starts
      have pc: "prefix L c" and m: "masks E (drop (length L) c) (drop (length L) s)"
        using masks_plain_prefix [of E c s L] by blast+
      from L masks_Char have "length (drop (length L) s) < length s" by (cases L) auto
      then have "masks ?E (drop (length L) c) (replaceEach L P (drop (length L) s))"
        using m by (rule less.hyps)
      then have "masks ?E (L @ drop (length L) c) (P @ replaceEach L P (drop (length L) s))"
        by (intro masks_Tok) auto
      moreover from pc have "L @ drop (length L) c = c" by (auto simp: prefix_def)
      moreover from True L masks_Char
      have "replaceEach L P s = P @ replaceEach L P (drop (length L) s)" by simp
      ultimately show ?thesis by simp
    next
      case False
      from masks_Char have "length b0 < length s" by simp
      then have "masks ?E a0 (replaceEach L P b0)" using masks_Char(3) by (rule less.hyps)
      then have "masks ?E (x # a0) (x # replaceEach L P b0)" by (rule masks.masks_Char)
      with False masks_Char show ?thesis by simp
    qed
  next
    case (masks_Tok l p a0 b0)
    with E have bp: "bracketed p" and nsub: "\<not> sublist L p" by blast+
    then have pne: "p \<noteq> []" and lastp: "last p = CHR '']''" by (auto dest: bracketed_nonempty)
    have skip: "\<not> prefix L (drop k p @ b0)" if "k < length p" for k
    proof
      assume pre: "prefix L (drop k p @ b0)"
      from that have dne: "drop k p \<noteq> []" by simp
      from that lastp have ld: "last (drop k p) = CHR '']''" by simp
      from pre have "prefix L (drop k p) \<or> (\<exists>us. L = drop k p @ us)"
        by (auto simp: prefix_append)
      then show False
      proof
        assume "prefix L (drop k p)"
        then have "sublist L (drop k p)" by (rule prefix_imp_sublist)
        moreover have "sublist (drop k p) p" by (rule suffix_imp_sublist) (rule suffix_drop)
        ultimately have "sublist L p" by (rule sublist_order.order.trans)
        with nsub show False by simp
      next
        assume "\<exists>us. L = drop k p @ us"
        then obtain us where "L = drop k p @ us" by blast
        with dne ld have "CHR '']'' \<in> set L" by (metis last_in_set set_append UnI1)
        with L show False by simp
      qed
    qed
    from pne masks_Tok have "length b0 < length s" by simp
    then have "masks ?E a0 (replaceEach L P b0)" using masks_Tok(4) by (rule less.hyps)
    with masks_Tok have "masks ?E (l @ a0) (p @ replaceEach L P b0)"
      by (intro masks.masks_Tok) auto
    moreover from skip have "replaceEach L P (p @ b0) = p @ replaceEach L P b0"
      by (rule replaceEach_skip)
    ultimately show ?thesis using masks_Tok by simp
  qed
qed

lemma masks_backward:
  assumes "masks E c t" and LP: "(L, P) \<in> E"
      and E: "\<And>l p. (l, p) \<in> E \<Longrightarrow> bracketed p"
      and uniq: "\<And>l. (l, P) \<in> E \<Longrightarrow> l = L"
      and free: "\<not> sublist P c"
  shows "masks (E - {(L, P)}) c (replaceEach P L t)"
  using assms(1) free
proof (induction rule: masks.induct)
  case masks_Nil
  then show ?case by (simp add: masks.masks_Nil)
next
  case (masks_Char a b x)
  let ?E = "E - {(L, P)}"
  from LP E have bP: "bracketed P" by blast
  from masks_Char.prems have na: "\<not> sublist P a" and np: "\<not> prefix P (x # a)"
    by (auto simp: sublist_Cons_right)
  from na have ih: "masks ?E a (replaceEach P L b)" by (rule masks_Char.IH)
  have "\<not> prefix P (x # b)"
  proof
    assume pre: "prefix P (x # b)"
    from bP obtain v where v: "P = CHR ''['' # v @ '']''" "CHR ''['' \<notin> set v"
      by (auto simp: bracketed_def)
    with pre have x: "x = CHR ''[''" and pv: "prefix (v @ '']'') b" by auto
    have "prefix (v @ '']'') a"
      using masks_plain_prefix [OF masks_Char.hyps pv] v E bracketed_nonempty by auto
    with x v have "prefix P (x # a)" by simp
    with np show False by simp
  qed
  then have "replaceEach P L (x # b) = x # replaceEach P L b" by simp
  with ih show ?case by (simp add: masks.masks_Char)
next
  case (masks_Tok l p a b)
  let ?E = "E - {(L, P)}"
  from LP E have bP: "bracketed P" by blast
  from masks_Tok.hyps E have bp: "bracketed p" by blast
  from masks_Tok.prems have "\<not> sublist P a"
    by (metis sublist_append)
  then have ih: "masks ?E a (replaceEach P L b)" by (rule masks_Tok.IH)
  show ?case
  proof (cases "p = P")
    case True
    with masks_Tok.hyps uniq have "l = L" by blast
    moreover from bP have "P \<noteq> []" by (simp add: bracketed_nonempty)
    then have "replaceEach P L (P @ b) = L @ replaceEach P L b" by (rule replaceEach_hit)
    moreover from ih have "masks ?E (L @ a) (L @ replaceEach P L b)" by (rule masks_same_prefix)
    ultimately show ?thesis using True by simp
  next
    case False
    have "\<not> prefix P (drop k p @ b)" if "k < length p" for k
      using bracketed_no_overlap [OF bp bP that] False by blast
    then have "replaceEach P L (p @ b) = p @ replaceEach P L b" by (rule replaceEach_skip)
    moreover from masks_Tok.hyps False have "(l, p) \<in> ?E" by simp
    then have "masks ?E (l @ a) (p @ replaceEach P L b)" using ih by (rule masks.masks_Tok)
    ultimately show ?thesis by simp
  qed
qed

subsection \<open>The second pass and the restoration as folds\<close>

lemma lookup_in_map: "distinct (map fst m) \<Longrightarrow> (l, p) \<in> set m \<Longrightarrow> lookup m l = p"
  by (simp add: lookup_def)

lemma substitute_masks_aux:
  assumes d: "distinct (map fst m)"
      and lits: "\<And>l p. (l, p) \<in> set m \<Longrightarrow>
                   l \<noteq> [] \<and> CHR ''['' \<notin> set l \<and> CHR '']'' \<notin> set l \<and> bracketed p"
      and clear: "\<And>l p l' p'. (l, p) \<in> set m \<Longrightarrow> (l', p') \<in> set m \<Longrightarrow> l' \<noteq> l \<Longrightarrow>
                    \<not> sublist l p'"
  shows "masks {(l, p). (l, p) \<in> set m \<and> l \<in> D} c s \<Longrightarrow> distinct originals \<Longrightarrow>
         set originals \<inter> D = {} \<Longrightarrow> set originals \<subseteq> fst ` set m \<Longrightarrow>
         masks {(l, p). (l, p) \<in> set m \<and> l \<in> D \<union> set originals} c
           (foldl (\<lambda>maskedContent original. ReplaceAll maskedContent original (lookup m original))
              s originals)"
proof (induction originals arbitrary: s D)
  case Nil
  then show ?case by simp
next
  case (Cons orig originals)
  let ?E = "{(l, p). (l, p) \<in> set m \<and> l \<in> D}"
  from Cons.prems(4) obtain P where P: "(orig, P) \<in> set m" by auto
  with d have lk: "lookup m orig = P" by (simp add: lookup_in_map)
  from lits [OF P] have o: "orig \<noteq> []" "CHR ''['' \<notin> set orig" "CHR '']'' \<notin> set orig"
    by simp_all
  from Cons.prems(3) have notD: "orig \<notin> D" by simp
  have "masks (insert (orig, P) ?E) c (replaceEach orig P s)"
  proof (rule masks_forward [OF Cons.prems(1) o])
    fix l p assume "(l, p) \<in> ?E"
    then have lp: "(l, p) \<in> set m" and "l \<in> D" by auto
    with notD have "l \<noteq> orig" by auto
    with clear [OF P lp] have "\<not> sublist orig p" by simp
    moreover from lits [OF lp] have "bracketed p" by simp
    ultimately show "bracketed p \<and> \<not> sublist orig p" by simp
  qed
  moreover have "insert (orig, P) ?E = {(l, p). (l, p) \<in> set m \<and> l \<in> insert orig D}"
  proof -
    have u: "p = P" if "(orig, p) \<in> set m" for p
      by (rule eq_key_imp_eq_value [OF d that P])
    show ?thesis
    proof (intro set_eqI iffI)
      fix x assume "x \<in> insert (orig, P) ?E"
      with P show "x \<in> {(l, p). (l, p) \<in> set m \<and> l \<in> insert orig D}" by auto
    next
      fix x assume "x \<in> {(l, p). (l, p) \<in> set m \<and> l \<in> insert orig D}"
      then obtain l p where x: "x = (l, p)" "(l, p) \<in> set m" "l \<in> insert orig D" by auto
      show "x \<in> insert (orig, P) ?E"
      proof (cases "l = orig")
        case True
        with x u show ?thesis by simp
      next
        case False
        with x show ?thesis by simp
      qed
    qed
  qed
  ultimately have m1: "masks {(l, p). (l, p) \<in> set m \<and> l \<in> insert orig D} c
      (ReplaceAll s orig (lookup m orig))"
    using o lk by (simp add: ReplaceAll_nonempty_old)
  from Cons.prems have "distinct originals" "set originals \<inter> insert orig D = {}"
    "set originals \<subseteq> fst ` set m" by auto
  from Cons.IH [OF m1 this]
  have "masks {(l, p). (l, p) \<in> set m \<and> l \<in> insert orig D \<union> set originals} c
      (foldl (\<lambda>maskedContent original. ReplaceAll maskedContent original (lookup m original))
         (ReplaceAll s orig (lookup m orig)) originals)" .
  moreover have "insert orig D \<union> set originals = D \<union> set (orig # originals)" by auto
  ultimately show ?case by simp
qed

lemma substitute_masks:
  assumes "distinct (map fst m)"
      and "\<And>l p. (l, p) \<in> set m \<Longrightarrow>
             l \<noteq> [] \<and> CHR ''['' \<notin> set l \<and> CHR '']'' \<notin> set l \<and> bracketed p"
      and "\<And>l p l' p'. (l, p) \<in> set m \<Longrightarrow> (l', p') \<in> set m \<Longrightarrow> l' \<noteq> l \<Longrightarrow> \<not> sublist l p'"
      and "distinct originals" "set originals = fst ` set m"
  shows "masks (set m) content (substitute m originals content)"
proof -
  have "masks {(l, p). (l, p) \<in> set m \<and> l \<in> {}} content content" by (rule masks_refl)
  from substitute_masks_aux [OF assms(1-3) this assms(4)] assms(5)
  have "masks {(l, p). (l, p) \<in> set m \<and> l \<in> {} \<union> set originals} content
          (substitute m originals content)"
    by (simp add: substitute_def)
  moreover from assms(5) have "{(l, p). (l, p) \<in> set m \<and> l \<in> {} \<union> set originals} = set m"
    by force
  ultimately show ?thesis by simp
qed

lemma restore_masks:
  "masks (set es) c t \<Longrightarrow> distinct (map snd es) \<Longrightarrow>
   (\<And>l p. (l, p) \<in> set es \<Longrightarrow> bracketed p \<and> \<not> sublist p c) \<Longrightarrow>
   restorePIIInResponse t es = c"
proof (induction es arbitrary: t)
  case Nil
  then have "t = c" using masks_empty [of c t] by simp
  then show ?case by (simp add: restorePIIInResponse_def)
next
  case (Cons e es)
  obtain L P where e: "e = (L, P)" by (cases e)
  from Cons.prems(3) e have bP: "bracketed P" and free: "\<not> sublist P c" by auto
  have "masks (set (e # es) - {(L, P)}) c (replaceEach P L t)"
  proof (rule masks_backward [OF Cons.prems(1)])
    show "(L, P) \<in> set (e # es)" using e by simp
    show "bracketed p" if "(l, p) \<in> set (e # es)" for l p using that Cons.prems(3) by blast
    show "l = L" if "(l, P) \<in> set (e # es)" for l
      using that Cons.prems(2) e by (auto simp: image_iff) 
    show "\<not> sublist P c" by (rule free)
  qed
  moreover from Cons.prems(2) e have "(L, P) \<notin> set es" by (auto simp: image_iff)
  then have "set (e # es) - {(L, P)} = set es" using e by auto
  ultimately have m: "masks (set es) c (replaceEach P L t)" by simp
  from Cons.prems have "distinct (map snd es)"
    "\<And>l p. (l, p) \<in> set es \<Longrightarrow> bracketed p \<and> \<not> sublist p c" by auto
  with m have "restorePIIInResponse (replaceEach P L t) es = c" by (rule Cons.IH)
  moreover from bP have "P \<noteq> []" by (simp add: bracketed_nonempty)
  ultimately show ?case
    using e by (simp add: restore_is_sequential_ReplaceAll ReplaceAll_nonempty_old)
qed

subsection \<open>What the anchored patterns match\<close>

lemma set_ends_Seq: "set (ends (Seq a b) s i) = (\<Union>k\<in>set (ends a s i). set (ends b s k))"
  by (simp add: ends.simps(3))

lemma ends_Loop_Cls_D:
  "j \<in> set (ends (Loop (Cls rs)) s i) \<Longrightarrow> i \<le> k \<Longrightarrow> k < j \<Longrightarrow> in_class rs (s ! k)"
proof (induction "length s - i" arbitrary: i rule: less_induct)
  case less
  from less.prems(2,3) have "j \<noteq> i" by simp
  with less.prems(1)
  obtain x where x: "x \<in> set (ends (Cls rs) s i)" "i < x" "x \<le> length s"
      "j \<in> set (ends (Loop (Cls rs)) s x)"
    by (subst (asm) ends.simps(11)) (auto split: if_splits)
  from x(1) have xi: "x = Suc i" "i < length s" "in_class rs (s ! i)"
    by (auto simp: ends.simps(2) split: if_splits)
  show ?case
  proof (cases "k = i")
    case True
    with xi show ?thesis by simp
  next
    case False
    with less.prems(2) xi have "x \<le> k" by simp
    moreover from xi have "length s - x < length s - i" by simp
    ultimately show ?thesis using x(4) less.prems(3) by (intro less.hyps [of x]) auto
  qed
qed

lemma ends_Plus_Cls:
  "ends (Plus (Cls rs)) s i =
     (if i < length s \<and> in_class rs (s ! i) then ends (Loop (Cls rs)) s (Suc i) else [])"
  by (auto simp: ends.simps(10) ends.simps(2))

lemma ends_Plus_Cls_D:
  assumes "j \<in> set (ends (Plus (Cls rs)) s i)"
  shows "i < j \<and> (\<forall>k. i \<le> k \<and> k < j \<longrightarrow> in_class rs (s ! k))"
proof -
  from assms have i: "i < length s" "in_class rs (s ! i)"
    and j: "j \<in> set (ends (Loop (Cls rs)) s (Suc i))"
    by (auto simp: ends_Plus_Cls split: if_splits)
  from j have "Suc i \<le> j" by (rule ends_ge)
  moreover have "in_class rs (s ! k)" if "i \<le> k" "k < j" for k
  proof (cases "k = i")
    case True
    with i show ?thesis by simp
  next
    case False
    with that have "Suc i \<le> k" by simp
    with j show ?thesis using that(2) by (rule ends_Loop_Cls_D)
  qed
  ultimately show ?thesis by auto
qed

lemma ends_Cls_segment:
  "s = u @ c # v \<Longrightarrow> in_class rs c \<Longrightarrow> Suc (length u) \<in> set (ends (Cls rs) s (length u))"
  by (simp add: ends.simps(2))

lemma ends_Loop_Cls_segment:
  "s = u @ w @ v \<Longrightarrow> \<forall>c\<in>set w. in_class rs c \<Longrightarrow>
   length u + length w \<in> set (ends (Loop (Cls rs)) s (length u))"
proof (induction w arbitrary: u)
  case Nil
  then show ?case by (subst ends.simps(11)) simp
next
  case (Cons c w)
  from Cons.prems have s: "s = (u @ [c]) @ w @ v" by simp
  with Cons.prems have "length (u @ [c]) + length w \<in> set (ends (Loop (Cls rs)) s (length (u @ [c])))"
    by (intro Cons.IH) auto
  then have ih: "Suc (length u + length w) \<in> set (ends (Loop (Cls rs)) s (Suc (length u)))" by simp
  from Cons.prems have c: "ends (Cls rs) s (length u) = [Suc (length u)]"
    by (simp add: ends.simps(2))
  from Cons.prems have le: "Suc (length u) \<le> length s" by simp
  show ?case
    by (subst ends.simps(11)) (use ih c le in simp)
qed

lemma ends_Plus_Cls_segment:
  assumes "s = u @ c # w @ v" "in_class rs c" "\<forall>c\<in>set w. in_class rs c"
  shows "Suc (length u + length w) \<in> set (ends (Plus (Cls rs)) s (length u))"
proof -
  from assms(1) have "s = (u @ [c]) @ w @ v" by simp
  then have "length (u @ [c]) + length w \<in> set (ends (Loop (Cls rs)) s (length (u @ [c])))"
    using assms(3) by (rule ends_Loop_Cls_segment)
  with assms(1,2) show ?thesis by (simp add: ends_Plus_Cls)
qed

lemma ends_Seq_segment:
  "k \<in> set (ends a s i) \<Longrightarrow> j \<in> set (ends b s k) \<Longrightarrow> j \<in> set (ends (Seq a b) s i)"
  by (auto simp: set_ends_Seq)

lemma MatchString_I: "ends re s 0 \<noteq> [] \<Longrightarrow> MatchString re s"
  by (cases "ends re s 0") (simp_all add: MatchString_def find_from_hit)

lemma MatchString_D: "MatchString re s \<Longrightarrow> \<exists>i\<le>length s. ends re s i \<noteq> []"
proof (rule ccontr)
  assume m: "MatchString re s" and "\<not> (\<exists>i\<le>length s. ends re s i \<noteq> [])"
  then have "find_from re s 0 = None" by (intro find_from_none) auto
  with m show False by (simp add: MatchString_def)
qed

lemma ends_BeginText_Seq: "ends (Seq BeginText r) s i = (if i = 0 then ends r s 0 else [])"
  by (simp add: ends.simps(3) ends.simps(8))

lemma in_upper_underscore_no_bracket:
  "in_class upper_underscore c \<Longrightarrow> c \<noteq> CHR ''['' \<and> c \<noteq> CHR '']''"
  by (auto simp: in_class_def upper_underscore_def byte_def)

lemma entityNamePattern_D:
  assumes "MatchString entityNamePattern key"
  shows "key \<noteq> [] \<and> (\<forall>c\<in>set key. in_class upper_underscore c)"
proof -
  let ?U = "Cls upper_underscore"
  have ep: "entityNamePattern = Seq BeginText (Seq (Plus ?U) EndText)"
    by (simp add: entityNamePattern_def OneOrMore_def)
  from assms obtain i where "ends entityNamePattern key i \<noteq> []" by (auto dest: MatchString_D)
  then have "ends (Seq (Plus ?U) EndText) key 0 \<noteq> []"
    by (simp add: ep ends_BeginText_Seq split: if_splits)
  then obtain j where "j \<in> set (ends (Seq (Plus ?U) EndText) key 0)"
    by (cases "ends (Seq (Plus ?U) EndText) key 0") auto
  then obtain k where k: "k \<in> set (ends (Plus ?U) key 0)" "j \<in> set (ends EndText key k)"
    by (auto simp: set_ends_Seq)
  from k(2) have kl: "k = length key" by (simp add: ends.simps(9) split: if_splits)
  from k(1) have "0 < k \<and> (\<forall>n. 0 \<le> n \<and> n < k \<longrightarrow> in_class upper_underscore (key ! n))"
    by (rule ends_Plus_Cls_D)
  with kl have "key \<noteq> []" "\<forall>n<length key. in_class upper_underscore (key ! n)" by auto
  then show ?thesis by (auto simp: in_set_conv_nth)
qed

lemma hex_chars_in_hex_lower: "c \<in> set ''0123456789abcdef'' \<Longrightarrow> in_class hex_lower c"
  by (auto simp: in_class_def hex_lower_def byte_def)

lemma length_four: "length h = 4 \<Longrightarrow> \<exists>h0 h1 h2 h3. h = [h0, h1, h2, h3]"
  by (auto simp: length_Suc_conv eval_nat_numeral)

lemma placeholder_matches:
  assumes key: "key \<noteq> []" "\<forall>c\<in>set key. in_class upper_underscore c" and n: "n < 65536"
  shows "MatchString placeholderPattern (placeholder key n)"
proof -
  let ?U = "Cls upper_underscore" and ?H = "Cls hex_lower"
  from n have "length (fmt04x n) = 4" by (rule fmt04x_length)
  then obtain h0 h1 h2 h3 where h: "fmt04x n = [h0, h1, h2, h3]" by (auto dest: length_four)
  have "\<forall>c\<in>set (fmt04x n). in_class hex_lower c"
    using fmt04x_chars [of n] hex_chars_in_hex_lower by blast
  with h have hc: "in_class hex_lower h0" "in_class hex_lower h1" "in_class hex_lower h2"
    "in_class hex_lower h3" by simp_all
  from key obtain k0 ks where k: "key = k0 # ks" by (cases key) auto
  with key have k0: "in_class upper_underscore k0" and ks: "\<forall>c\<in>set ks. in_class upper_underscore c"
    by simp_all
  define s where "s = placeholder key n"
  have s: "s = CHR ''['' # k0 # ks @ CHR ''_'' # h0 # h1 # h2 # h3 # '']''"
    by (simp add: s_def placeholder_def h k)
  let ?a = "length ks"
  have len: "length s = ?a + 8" by (simp add: s)
  have e1: "1 \<in> set (ends (Chr (CHR ''['')) s 0)"
    using ends_Cls_segment [of s "[]" "CHR ''[''" _ "[(CHR ''['', CHR ''['')]"]
    by (simp add: s Chr_def in_class_single eval_nat_numeral)
  have e3: "?a + 2 \<in> set (ends (OneOrMore ?U) s 1)"
    using ends_Plus_Cls_segment [of s "''[''" k0 ks _ upper_underscore] k0 ks
    by (simp add: s OneOrMore_def eval_nat_numeral)
  have e4: "?a + 3 \<in> set (ends (Chr (CHR ''_'')) s (?a + 2))"
    using ends_Cls_segment [of s "CHR ''['' # k0 # ks" "CHR ''_''" _ "[(CHR ''_'', CHR ''_'')]"]
    by (simp add: s Chr_def in_class_single eval_nat_numeral)
  have e5: "?a + 4 \<in> set (ends ?H s (?a + 3))"
    using ends_Cls_segment [of s "CHR ''['' # k0 # ks @ ''_''" h0 _ hex_lower] hc by (simp add: s eval_nat_numeral)
  have e6: "?a + 5 \<in> set (ends ?H s (?a + 4))"
    using ends_Cls_segment [of s "CHR ''['' # k0 # ks @ [CHR ''_'', h0]" h1 _ hex_lower] hc
    by (simp add: s eval_nat_numeral)
  have e7: "?a + 6 \<in> set (ends ?H s (?a + 5))"
    using ends_Cls_segment [of s "CHR ''['' # k0 # ks @ [CHR ''_'', h0, h1]" h2 _ hex_lower] hc
    by (simp add: s eval_nat_numeral)
  have e8: "?a + 7 \<in> set (ends ?H s (?a + 6))"
    using ends_Cls_segment [of s "CHR ''['' # k0 # ks @ [CHR ''_'', h0, h1, h2]" h3 _ hex_lower] hc
    by (simp add: s eval_nat_numeral)
  have e9: "?a + 8 \<in> set (ends (Chr (CHR '']'')) s (?a + 7))"
    using ends_Cls_segment [of s "CHR ''['' # k0 # ks @ [CHR ''_'', h0, h1, h2, h3]" "CHR '']''" _
        "[(CHR '']'', CHR '']'')]"]
    by (simp add: s Chr_def in_class_single eval_nat_numeral)
  have e10: "?a + 8 \<in> set (ends EndText s (?a + 8))"
    by (simp add: ends.simps(9) len)
  have t: "?a + 8 \<in> set (ends (Seq (Chr (CHR '']'')) EndText) s (?a + 7))"
    using e9 e10 by (rule ends_Seq_segment)
  have x4: "?a + 7 \<in> set (ends (Exactly 4 ?H) s (?a + 3))"
  proof -
    have "?a + 7 \<in> set (ends Eps s (?a + 7))" by (simp add: ends.simps(1))
    with e8 have "?a + 7 \<in> set (ends (Seq ?H Eps) s (?a + 6))" by (rule ends_Seq_segment)
    with e7 have "?a + 7 \<in> set (ends (Seq ?H (Seq ?H Eps)) s (?a + 5))" by (rule ends_Seq_segment)
    with e6 have "?a + 7 \<in> set (ends (Seq ?H (Seq ?H (Seq ?H Eps))) s (?a + 4))"
      by (rule ends_Seq_segment)
    with e5 have "?a + 7 \<in> set (ends (Seq ?H (Seq ?H (Seq ?H (Seq ?H Eps)))) s (?a + 3))"
      by (rule ends_Seq_segment)
    then show ?thesis by (simp add: eval_nat_numeral)
  qed
  from x4 t have "?a + 8 \<in> set (ends (Seq (Exactly 4 ?H) (Seq (Chr (CHR '']'')) EndText)) s (?a + 3))"
    by (rule ends_Seq_segment)
  with e4 have "?a + 8 \<in> set (ends (Seq (Chr (CHR ''_''))
      (Seq (Exactly 4 ?H) (Seq (Chr (CHR '']'')) EndText))) s (?a + 2))"
    by (rule ends_Seq_segment)
  moreover note e3
  ultimately have "?a + 8 \<in> set (ends (Seq (OneOrMore ?U) (Seq (Chr (CHR ''_''))
      (Seq (Exactly 4 ?H) (Seq (Chr (CHR '']'')) EndText)))) s 1)"
    by (rule ends_Seq_segment [rotated])
  with e1 have "?a + 8 \<in> set (ends (Seq (Chr (CHR ''['')) (Seq (OneOrMore ?U) (Seq (Chr (CHR ''_''))
      (Seq (Exactly 4 ?H) (Seq (Chr (CHR '']'')) EndText))))) s 0)"
    by (rule ends_Seq_segment)
  then have "ends placeholderPattern s 0 \<noteq> []"
    by (auto simp: placeholderPattern_def ends_BeginText_Seq)
  then show ?thesis unfolding s_def by (rule MatchString_I)
qed

lemma placeholder_bracketed:
  assumes "\<forall>c\<in>set key. in_class upper_underscore c"
  shows "bracketed (placeholder key n)"
proof -
  have "CHR ''['' \<notin> set (fmt04x n)" "CHR '']'' \<notin> set (fmt04x n)"
    using fmt04x_chars [of n] by auto
  moreover from assms have "CHR ''['' \<notin> set key" "CHR '']'' \<notin> set key"
    using in_upper_underscore_no_bracket by blast+
  ultimately show ?thesis
    unfolding bracketed_def placeholder_def
    by (intro exI [of _ "key @ ''_'' @ fmt04x n"]) simp
qed

subsection \<open>Restoring what masking produced\<close>

text \<open>
  \<open>literals_clear entry\<close>: no literal of the entry is empty or contains a bracket, and no
  literal occurs inside the placeholder of another literal.
\<close>

definition literals_clear :: "(string \<times> string) list \<Rightarrow> bool" where
  "literals_clear entry \<longleftrightarrow>
     (\<forall>(l, p)\<in>set entry.
        l \<noteq> [] \<and> CHR ''['' \<notin> set l \<and> CHR '']'' \<notin> set l \<and>
        (\<forall>(l', p')\<in>set entry. l' \<noteq> l \<longrightarrow> \<not> sublist l p'))"

lemma firstPass_placeholders:
  assumes names: "\<forall>(key, pattern)\<in>set piiEntities. MatchString entityNamePattern key"
      and small: "length (st_allMatches (firstPass content piiEntities)) \<le> 65536"
      and lp: "(l, p) \<in> set (st_allMatches (firstPass content piiEntities))"
  shows "bracketed p \<and> MatchString placeholderPattern p"
proof -
  let ?am = "st_allMatches (firstPass content piiEntities)"
  have inv: "pass_inv (matched_by content piiEntities) (firstPass content piiEntities)"
    by (rule firstPass_inv)
  from lp obtain i where i: "i < length ?am" "?am ! i = (l, p)" by (auto simp: in_set_conv_nth)
  with inv obtain key where key: "matched_by content piiEntities key l" "p = placeholder key i"
    unfolding pass_inv_def by (metis fst_conv snd_conv)
  from key(1) names have "MatchString entityNamePattern key"
    by (auto simp: matched_by_def)
  then have k: "key \<noteq> []" "\<forall>c\<in>set key. in_class upper_underscore c"
    by (auto dest: entityNamePattern_D)
  from i small have "i < 65536" by simp
  with k key(2) show ?thesis by (simp add: placeholder_bracketed placeholder_matches)
qed

text \<open>
  Where the round trip holds. Let the content have no substring of the placeholder shape,
  let the names of the detectors match \<open>^[A-Z_]+$\<close> (as \<open>parseParams\<close> requires), and let
  masking report a modification, so that it found at least one literal and stored the
  correlation entry. If no literal of the entry is empty, contains \<open>[\<close> or \<open>]\<close>, or occurs
  inside the placeholder of another literal, and there are at most 65536 literals (the
  counter fits four hexadecimal digits), then restoring the masked output with the entry
  returns the original content exactly, in whichever order the second pass visited the
  literals and in whichever order the restoration visits the entry. The conditions on the
  literals are sufficient, not necessary.
\<close>

lemma round_trip_when_literals_are_clear:
  assumes no_ph: "\<forall>p. sublist p content \<longrightarrow> \<not> MatchString placeholderPattern p"
      and names: "\<forall>(key, pattern)\<in>set piiEntities. MatchString entityNamePattern key"
      and ord: "\<And>ks. mset (order ks) = mset ks"
      and run: "maskPIIFromContent order content piiEntities metadata = (Inr masked, metadata')"
      and found: "masked \<noteq> []"
      and entry: "metadata' MetadataKeyPIIEntities = Some (PIIMap entry)"
      and clear: "literals_clear entry"
      and small: "length entry \<le> 65536"
      and visit: "mset entry' = mset entry"
  shows "restorePIIInResponse masked entry' = content"
proof -
  let ?st = "firstPass content piiEntities"
  let ?am = "st_allMatches ?st"
  let ?originals = "sortByLengthDesc (order (map fst ?am))"
  have inv: "pass_inv (matched_by content piiEntities) ?st" by (rule firstPass_inv)
  then have eq: "st_maskedPIIEntities ?st = ?am" and d1: "distinct (map fst ?am)"
    by (simp_all add: pass_inv_def)
  from inv have d2: "distinct (map snd ?am)" by (rule pass_inv_distinct_snd)
  from run found have ne: "content \<noteq> []" "?am \<noteq> []"
    by (auto simp: maskPIIFromContent_def Let_def split: if_splits)
  with run eq have masked: "masked = substitute ?am ?originals content"
    and md: "metadata' = metadata(MetadataKeyPIIEntities \<mapsto> PIIMap ?am)"
    by (auto simp: maskPIIFromContent_def Let_def split: if_splits)
  from md entry have e: "entry = ?am" by simp
  have ph: "bracketed p \<and> MatchString placeholderPattern p" if "(l, p) \<in> set ?am" for l p
    using names _ that by (rule firstPass_placeholders) (use small e in simp)
  have lits: "l \<noteq> [] \<and> CHR ''['' \<notin> set l \<and> CHR '']'' \<notin> set l \<and> bracketed p"
    if "(l, p) \<in> set ?am" for l p
    using that clear ph unfolding literals_clear_def e by blast
  have sep: "\<not> sublist l p'" if "(l, p) \<in> set ?am" "(l', p') \<in> set ?am" "l' \<noteq> l" for l p l' p'
    using that clear unfolding literals_clear_def e by blast
  have "distinct (order (map fst ?am))"
    using ord [of "map fst ?am"] d1 by (metis mset_eq_imp_distinct_iff)
  then have o1: "distinct ?originals" by (simp add: sortByLengthDesc_def)
  have o2: "set ?originals = fst ` set ?am"
    using ord [of "map fst ?am"] by (metis set_sortByLengthDesc set_mset_mset set_map)
  have m: "masks (set ?am) content masked"
    unfolding masked using d1 lits sep o1 o2 by (rule substitute_masks)
  from visit e have s': "set entry' = set ?am" by (metis set_mset_mset)
  from visit e have "mset (map snd entry') = mset (map snd ?am)" by simp
  with d2 have d': "distinct (map snd entry')" by (metis mset_eq_imp_distinct_iff)
  show ?thesis
  proof (rule restore_masks)
    show "masks (set entry') content masked" using m s' by simp
    show "distinct (map snd entry')" by (rule d')
    show "bracketed p \<and> \<not> sublist p content" if "(l, p) \<in> set entry'" for l p
      using that s' ph no_ph by blast
  qed
qed

text \<open>A content without \<open>[\<close> has no substring of the placeholder shape.\<close>

lemma placeholderPattern_D:
  assumes "MatchString placeholderPattern p"
  shows "p \<noteq> [] \<and> hd p = CHR ''[''"
proof -
  obtain r where pp: "placeholderPattern = Seq BeginText (Seq (Chr (CHR ''['')) r)"
    by (simp add: placeholderPattern_def)
  from assms obtain i where "ends placeholderPattern p i \<noteq> []" by (auto dest: MatchString_D)
  then have "ends (Seq (Chr (CHR ''['')) r) p 0 \<noteq> []"
    by (simp add: pp ends_BeginText_Seq split: if_splits)
  then obtain j where "j \<in> set (ends (Seq (Chr (CHR ''['')) r) p 0)"
    by (cases "ends (Seq (Chr (CHR ''['')) r) p 0") auto
  then obtain k where "k \<in> set (ends (Chr (CHR ''['')) p 0)"
    by (auto simp: set_ends_Seq)
  then have "0 < length p \<and> p ! 0 = CHR ''[''"
    by (auto simp: Chr_def ends.simps(2) in_class_single split: if_splits)
  then show ?thesis by (cases p) auto
qed

lemma no_bracket_no_placeholder:
  assumes "CHR ''['' \<notin> set content"
  shows "\<forall>p. sublist p content \<longrightarrow> \<not> MatchString placeholderPattern p"
proof (intro allI impI notI)
  fix p assume s: "sublist p content" and m: "MatchString placeholderPattern p"
  from m have "p \<noteq> []" "hd p = CHR ''[''" by (auto dest: placeholderPattern_D)
  then have "CHR ''['' \<in> set p" by (metis hd_in_set)
  with s have "CHR ''['' \<in> set content" by (auto simp: sublist_def)
  with assms show False by simp
qed

definition two_literals_entry :: "(string \<times> string) list" where
  "two_literals_entry = [(''x@y.zz'', ''[EMAIL_0000]''), (''212-555-0100'', ''[PHONE_0001]'')]"

lemma round_trip_example:
  "\<not> (\<exists>p. sublist p ''x@y.zz 212-555-0100'' \<and> MatchString placeholderPattern p) \<and>
   list_all (\<lambda>(key, pattern). MatchString entityNamePattern key) builtin_email_phone \<and>
   maskPIIFromContent (\<lambda>ks. ks) ''x@y.zz 212-555-0100'' builtin_email_phone Map.empty
     = (Inr ''[EMAIL_0000] [PHONE_0001]'', [MetadataKeyPIIEntities \<mapsto> PIIMap two_literals_entry]) \<and>
   literals_clear two_literals_entry \<and>
   length two_literals_entry \<le> 65536 \<and>
   mset (rev two_literals_entry) = mset two_literals_entry \<and>
   restorePIIInResponse ''[EMAIL_0000] [PHONE_0001]'' (rev two_literals_entry)
     = ''x@y.zz 212-555-0100''"
proof -
  let ?c = "''x@y.zz 212-555-0100''"
  have h1: "\<forall>p. sublist p ?c \<longrightarrow> \<not> MatchString placeholderPattern p"
    by (rule no_bracket_no_placeholder) simp
  have n: "list_all (\<lambda>(key, pattern). MatchString entityNamePattern key) builtin_email_phone"
    by code_simp
  then have h2: "\<forall>(key, pattern)\<in>set builtin_email_phone. MatchString entityNamePattern key"
    by (simp add: list_all_iff)
  have h3: "\<And>ks :: string list. mset ((\<lambda>ks. ks) ks) = mset ks" by simp
  have fp: "firstPass ?c builtin_email_phone =
     \<lparr>st_allMatches = two_literals_entry, st_maskedPIIEntities = two_literals_entry,
      st_counter = 2\<rparr>"
    by code_simp
  have sub: "substitute two_literals_entry (sortByLengthDesc (map fst two_literals_entry)) ?c
      = ''[EMAIL_0000] [PHONE_0001]''"
    by code_simp
  have ne: "two_literals_entry \<noteq> []" by (simp add: two_literals_entry_def)
  have h4: "maskPIIFromContent (\<lambda>ks. ks) ?c builtin_email_phone Map.empty
     = (Inr ''[EMAIL_0000] [PHONE_0001]'', [MetadataKeyPIIEntities \<mapsto> PIIMap two_literals_entry])"
    by (simp add: maskPIIFromContent_def fp sub ne)
  have h5: "''[EMAIL_0000] [PHONE_0001]'' \<noteq> []" by simp
  have h6: "[MetadataKeyPIIEntities \<mapsto> PIIMap two_literals_entry] MetadataKeyPIIEntities
              = Some (PIIMap two_literals_entry)" by simp
  have h7: "literals_clear two_literals_entry" by code_simp
  have h8: "length two_literals_entry \<le> 65536" by (simp add: two_literals_entry_def)
  have h9: "mset (rev two_literals_entry) = mset two_literals_entry" by simp
  from round_trip_when_literals_are_clear [OF h1 h2 h3 h4 h5 h6 h7 h8 h9]
  have r: "restorePIIInResponse ''[EMAIL_0000] [PHONE_0001]'' (rev two_literals_entry) = ?c" .
  from h1 have h1': "\<not> (\<exists>p. sublist p ?c \<and> MatchString placeholderPattern p)"
    by blast
  from h1' n h4 h7 h8 h9 r show ?thesis by (intro conjI)
qed

text \<open>
  Claim C1 says that restoring the output of masking with the entry that masking stored
  gives the content back, for every content without placeholder-shaped substrings and
  every detector set. With the detector \<open>NUM\<close> (pattern \<open>[0-9]+\<close>) and the content
  \<open>10 0\<close>, which holds no \<open>[\<close>, masking rewrites the placeholder of \<open>10\<close> while it
  substitutes \<open>0\<close> (the nested replacement shown above) and stores the entry of the two
  literals. The restoration visits the entry in the order of a \<open>range\<close> over the map. When
  it comes to \<open>10\<close> first, \<open>[NUM_0000]\<close> is not in the text, nothing is replaced, and the
  pass for \<open>0\<close> then leaves \<open>[NUM_0000] 0\<close>, which is what the response phase returns. Only
  when it comes to \<open>0\<close> first is the content restored.
\<close>

theorem C1_round_trip_fails_after_nested_replacement:
  "\<not> (\<exists>p. sublist p ''10 0'' \<and> MatchString placeholderPattern p) \<and>
   MatchString entityNamePattern ''NUM'' \<and>
   maskPIIFromContent (\<lambda>ks. ks) ''10 0'' number_detector Map.empty
     = (Inr ''[NUM_[NUM_0001][NUM_0001][NUM_0001][NUM_0001]] [NUM_0001]'',
        [MetadataKeyPIIEntities \<mapsto> PIIMap [(''10'', ''[NUM_0000]''), (''0'', ''[NUM_0001]'')]]) \<and>
   maskPIIFromContent rev ''10 0'' number_detector Map.empty
     = maskPIIFromContent (\<lambda>ks. ks) ''10 0'' number_detector Map.empty \<and>
   restorePIIInResponse ''[NUM_[NUM_0001][NUM_0001][NUM_0001][NUM_0001]] [NUM_0001]''
       [(''10'', ''[NUM_0000]''), (''0'', ''[NUM_0001]'')]
     = ''[NUM_0000] 0'' \<and>
   ''[NUM_0000] 0'' \<noteq> ''10 0'' \<and>
   OnResponse (\<lambda>es. es) \<lparr>PIIEntities = number_detector, JsonPath = [], RedactPII = False\<rparr>
     \<lparr>ResponseBody = Some ''[NUM_[NUM_0001][NUM_0001][NUM_0001][NUM_0001]] [NUM_0001]'',
      ResponseMetadata =
        [MetadataKeyPIIEntities \<mapsto> PIIMap [(''10'', ''[NUM_0000]''), (''0'', ''[NUM_0001]'')]]\<rparr>
     = UpstreamResponseModifications (Some ''[NUM_0000] 0'') \<and>
   restorePIIInResponse ''[NUM_[NUM_0001][NUM_0001][NUM_0001][NUM_0001]] [NUM_0001]''
       [(''0'', ''[NUM_0001]''), (''10'', ''[NUM_0000]'')]
     = ''10 0''"
proof -
  let ?masked = "''[NUM_[NUM_0001][NUM_0001][NUM_0001][NUM_0001]] [NUM_0001]''"
  let ?entry = "[(''10'', ''[NUM_0000]''), (''0'', ''[NUM_0001]'')]"
  have a: "\<not> (\<exists>p. sublist p ''10 0'' \<and> MatchString placeholderPattern p)"
    using no_bracket_no_placeholder [of "''10 0''"] by simp
  have b: "MatchString entityNamePattern ''NUM''" by code_simp
  have fp: "firstPass ''10 0'' number_detector =
     \<lparr>st_allMatches = ?entry, st_maskedPIIEntities = ?entry, st_counter = 2\<rparr>"
    by code_simp
  have s1: "substitute ?entry (sortByLengthDesc [''10'', ''0'']) ''10 0'' = ?masked"
    by code_simp
  have s2: "substitute ?entry (sortByLengthDesc [''0'', ''10'']) ''10 0'' = ?masked"
    by code_simp
  have c: "maskPIIFromContent (\<lambda>ks. ks) ''10 0'' number_detector Map.empty
     = (Inr ?masked, [MetadataKeyPIIEntities \<mapsto> PIIMap ?entry])"
    by (simp add: maskPIIFromContent_def fp s1)
  have d: "maskPIIFromContent rev ''10 0'' number_detector Map.empty
     = (Inr ?masked, [MetadataKeyPIIEntities \<mapsto> PIIMap ?entry])"
    by (simp add: maskPIIFromContent_def fp s2)
  have e: "restorePIIInResponse ?masked ?entry = ''[NUM_0000] 0''"
    by code_simp
  have f: "''[NUM_0000] 0'' \<noteq> ''10 0''" by simp
  have g: "OnResponse (\<lambda>es. es) \<lparr>PIIEntities = number_detector, JsonPath = [], RedactPII = False\<rparr>
     \<lparr>ResponseBody = Some ?masked, ResponseMetadata = [MetadataKeyPIIEntities \<mapsto> PIIMap ?entry]\<rparr>
     = UpstreamResponseModifications (Some ''[NUM_0000] 0'')"
    by (simp add: OnResponse_def e)
  have h: "restorePIIInResponse ?masked [(''0'', ''[NUM_0001]''), (''10'', ''[NUM_0000]'')] = ''10 0''"
    by code_simp
  from a b c d e f g h show ?thesis by simp
qed

end
